theory Spec2Isabelle
  imports Main "HOL-Library.Multiset" "HOL-Library.Sublist" "HOL-Library.Char_ord"
    "HOL-Library.List_Lexorder"
begin

section \<open>Data model (src/types/index.ts, src/pages/Organization.tsx)\<close>

text \<open>
  The \<open>role\<close> attribute of an employee is one of the three string literals
  \<open>'admin' | 'manager' | 'employee'\<close>.
\<close>

datatype Role = admin | manager | employee

text \<open>
  \<open>interface Employee\<close>, restricted to the attributes that \<open>Organization.tsx\<close> reads when
  it builds the chart and the statistics; the remaining attributes (email, contact, ...)
  are copied into the node by the spread and read by the rendering only. The attribute
  \<open>id\<close> is written \<open>id'\<close> because \<open>id\<close> is the identity function of HOL. The optional
  \<open>managerId?: string\<close> is an option.
\<close>

record Employee =
  id' :: string
  name :: string
  department :: string
  managerId :: "string option"
  role :: Role

text \<open>
  \<open>interface OrgNode extends Employee { children: OrgNode[] }\<close>. Node objects are
  created only by \<open>employeeMap.set(emp.id, {...emp, children: []})\<close> and are reached
  only through \<open>employeeMap.get\<close>, so the key under which an object is stored in
  \<open>employeeMap\<close> serves as its reference: \<open>children\<close> holds references (keys), and
  the mutation \<open>manager.children.push(employee)\<close> is an update of the store. An object
  whose key has been overwritten by a later \<open>set\<close> is unreachable from then on.
\<close>

record OrgNode = Employee +
  children :: "string list"

text \<open>The variables of one run of \<open>buildOrgChart\<close>.\<close>

record BuildState =
  employeeMap :: "string \<rightharpoonup> OrgNode"
  rootNodes :: "string list"
  childNodes :: "string set"

text \<open>The arrays that \<open>sortNodes\<close> receives: \<open>rootNodes\<close>, or the \<open>children\<close> of a node.\<close>

datatype ArrayRef = RootNodes | ChildrenOf string

text \<open>
  \<open>String.prototype.localeCompare\<close> belongs to the JavaScript runtime and depends on
  the host's locale, so the builder takes it as a parameter.
\<close>

type_synonym Collator = "string \<Rightarrow> string \<Rightarrow> int"

section \<open>Department filter (buildOrgChart, lines 60-64)\<close>

definition filteredEmployees :: "Employee list \<Rightarrow> string \<Rightarrow> Employee list" where
  "filteredEmployees employees selectedDepartment =
     (if selectedDepartment \<noteq> ''all''
      then filter (\<lambda>emp. department emp = selectedDepartment) employees
      else employees)"

section \<open>Lookup map (lines 66-70)\<close>

definition newNode :: "Employee \<Rightarrow> OrgNode" where
  "newNode emp = Employee.extend emp (OrgNode.fields [])"

definition makeEmployeeMap :: "Employee list \<Rightarrow> (string \<rightharpoonup> OrgNode)" where
  "makeEmployeeMap emps = fold (\<lambda>emp m. m(id' emp \<mapsto> newNode emp)) emps Map.empty"

section \<open>Roots and children (lines 72-90)\<close>

text \<open>
  The test \<open>!emp.managerId || !employeeMap.has(emp.managerId)\<close>: an absent
  \<open>managerId\<close> and the empty string are both falsy.
\<close>

definition resolvedManager :: "(string \<rightharpoonup> OrgNode) \<Rightarrow> Employee \<Rightarrow> string option" where
  "resolvedManager m emp =
     (case managerId emp of
        None \<Rightarrow> None
      | Some mid \<Rightarrow> if mid = [] \<or> m mid = None then None else Some mid)"

definition placeEmployee :: "Employee \<Rightarrow> BuildState \<Rightarrow> BuildState" where
  "placeEmployee emp s =
     (case resolvedManager (employeeMap s) emp of
        None \<Rightarrow>
          (case employeeMap s (id' emp) of
             None \<Rightarrow> s
           | Some node \<Rightarrow> s\<lparr>rootNodes := rootNodes s @ [id' emp]\<rparr>)
      | Some mid \<Rightarrow>
          (case (employeeMap s mid, employeeMap s (id' emp)) of
             (Some managerNode, Some employeeNode) \<Rightarrow>
               s\<lparr>employeeMap := (employeeMap s)
                    (mid \<mapsto> managerNode\<lparr>children := children managerNode @ [id' emp]\<rparr>),
                  childNodes := insert (id' emp) (childNodes s)\<rparr>
           | _ \<Rightarrow> s))"

definition placeAll :: "Employee list \<Rightarrow> BuildState" where
  "placeAll emps =
     fold placeEmployee emps
       \<lparr>employeeMap = makeEmployeeMap emps, rootNodes = [], childNodes = {}\<rparr>"

section \<open>Sorting (lines 92-108)\<close>

definition roleOrder :: "Role \<Rightarrow> int" where
  "roleOrder r = (case r of admin \<Rightarrow> 0 | manager \<Rightarrow> 1 | employee \<Rightarrow> 2)"

definition compareNodes :: "Collator \<Rightarrow> OrgNode \<Rightarrow> OrgNode \<Rightarrow> int" where
  "compareNodes localeCompare a b =
     (let roleComparison = roleOrder (role a) - roleOrder (role b)
      in if roleComparison \<noteq> 0 then roleComparison
         else localeCompare (name a) (name b))"

text \<open>
  \<open>Array.prototype.sort\<close> with a comparison function: the sort is stable (ECMAScript
  2019), so for a consistent comparison function its result is the one of a stable
  insertion sort, where \<open>x\<close> stays in front of \<open>y\<close> unless \<open>cmp x y > 0\<close>.
\<close>

fun insertBy :: "('a \<Rightarrow> 'a \<Rightarrow> int) \<Rightarrow> 'a \<Rightarrow> 'a list \<Rightarrow> 'a list" where
  "insertBy cmp x [] = [x]"
| "insertBy cmp x (y # ys) = (if cmp x y \<le> 0 then x # y # ys else y # insertBy cmp x ys)"

definition sortBy :: "('a \<Rightarrow> 'a \<Rightarrow> int) \<Rightarrow> 'a list \<Rightarrow> 'a list" where
  "sortBy cmp xs = foldr (insertBy cmp) xs []"

definition deref :: "BuildState \<Rightarrow> string \<Rightarrow> OrgNode" where
  "deref s r = the (employeeMap s r)"

definition getArray :: "ArrayRef \<Rightarrow> BuildState \<Rightarrow> string list" where
  "getArray a s = (case a of RootNodes \<Rightarrow> rootNodes s | ChildrenOf r \<Rightarrow> children (deref s r))"

definition setArray :: "ArrayRef \<Rightarrow> string list \<Rightarrow> BuildState \<Rightarrow> BuildState" where
  "setArray a xs s =
     (case a of
        RootNodes \<Rightarrow> s\<lparr>rootNodes := xs\<rparr>
      | ChildrenOf r \<Rightarrow> s\<lparr>employeeMap := (employeeMap s)(r \<mapsto> (deref s r)\<lparr>children := xs\<rparr>)\<rparr>)"

definition sortInPlace :: "Collator \<Rightarrow> ArrayRef \<Rightarrow> BuildState \<Rightarrow> BuildState" where
  "sortInPlace localeCompare nodes s =
     setArray nodes
       (sortBy (\<lambda>a b. compareNodes localeCompare (deref s a) (deref s b)) (getArray nodes s)) s"

text \<open>
  \<open>Array.prototype.forEach\<close> on an array that lives in the state: the loop runs over
  the indices below the length the array had when the loop began and reads each
  element from the array as it is at that moment; an index that is no longer present
  is skipped. \<open>None\<close> is a callback that did not return.
\<close>

definition forEachLive ::
  "('s \<Rightarrow> 'a list) \<Rightarrow> ('a \<Rightarrow> 's \<Rightarrow> 's option) \<Rightarrow> 's \<Rightarrow> 's option" where
  "forEachLive arr body s =
     fold (\<lambda>i acc.
             case acc of
               None \<Rightarrow> None
             | Some s2 \<Rightarrow> if i < length (arr s2) then body (arr s2 ! i) s2 else Some s2)
       [0..<length (arr s)] (Some s)"

text \<open>
  \<open>sortNodes\<close> sorts the array in place and then calls itself on the \<open>children\<close> of
  every element that has any. The recursion follows object references, so it is
  bounded by fuel: \<open>None\<close> means that the fuel did not suffice.
\<close>

fun sortNodes :: "Collator \<Rightarrow> nat \<Rightarrow> ArrayRef \<Rightarrow> BuildState \<Rightarrow> BuildState option" where
  "sortNodes localeCompare 0 nodes s = None"
| "sortNodes localeCompare (Suc fuel) nodes s =
     forEachLive (getArray nodes)
       (\<lambda>node s2.
          if children (deref s2 node) \<noteq> []
          then sortNodes localeCompare fuel (ChildrenOf node) s2
          else Some s2)
       (sortInPlace localeCompare nodes s)"

text \<open>
  \<open>buildOrgChart\<close>; the value handed to \<open>setOrgChart\<close> is \<open>rootNodes\<close> together with
  the node objects it references.
\<close>

definition buildOrgChart ::
  "Collator \<Rightarrow> nat \<Rightarrow> Employee list \<Rightarrow> string \<Rightarrow> BuildState option" where
  "buildOrgChart localeCompare fuel employees selectedDepartment =
     sortNodes localeCompare fuel RootNodes
       (placeAll (filteredEmployees employees selectedDepartment))"

section \<open>The nodes of a forest (renderOrgNode, lines 144-215 and 343)\<close>

text \<open>
  The walk of \<open>orgChart.map(node => renderOrgNode(node))\<close> when every node is
  expanded: a node, then the walks of its \<open>children\<close> in order. It lists the ids of
  the nodes of the forest, one entry per visit.
\<close>

fun subtreeIds :: "BuildState \<Rightarrow> nat \<Rightarrow> string \<Rightarrow> string list option" where
  "subtreeIds s 0 node = None"
| "subtreeIds s (Suc fuel) node =
     map_option (\<lambda>subs. node # concat subs)
       (those (map (subtreeIds s fuel) (children (deref s node))))"

definition forestIds :: "BuildState \<Rightarrow> nat \<Rightarrow> string list option" where
  "forestIds s fuel = map_option concat (those (map (subtreeIds s fuel) (rootNodes s)))"

text \<open>The parent-to-child edges of the node objects.\<close>

definition childRel :: "BuildState \<Rightarrow> (string \<times> string) set" where
  "childRel s = {(p, c). \<exists>n. employeeMap s p = Some n \<and> c \<in> set (children n)}"

text \<open>
  The manager references of the input that resolve inside the list, as
  (manager id, employee id) pairs.
\<close>

definition managerEdges :: "Employee list \<Rightarrow> (string \<times> string) list" where
  "managerEdges emps =
     concat (map (\<lambda>emp. case resolvedManager (makeEmployeeMap emps) emp of
                           None \<Rightarrow> []
                         | Some mid \<Rightarrow> [(mid, id' emp)]) emps)"

section \<open>The component state (Organization, lines 14-29, 112-120, 217-223, 312-320)\<close>

record OrganizationState =
  employees :: "Employee list"
  orgChart :: BuildState
  loading :: bool
  expandedNodes :: "string set"
  selectedDepartment :: string
  departments :: "string list"

text \<open>The initial values given to \<open>useState\<close>.\<close>

definition initialState :: OrganizationState where
  "initialState =
     \<lparr>employees = [],
      orgChart = \<lparr>employeeMap = Map.empty, rootNodes = [], childNodes = {}\<rparr>,
      loading = True, expandedNodes = {}, selectedDepartment = ''all'', departments = []\<rparr>"

text \<open>\<open>[...new Set(xs)]\<close>: the distinct elements in the order of their first occurrence.\<close>

definition uniqueValues :: "'a list \<Rightarrow> 'a list" where
  "uniqueValues xs = rev (remdups (rev xs))"

text \<open>The state updates of a successful \<open>fetchEmployees\<close> that received \<open>employeeList\<close>.\<close>

definition fetchEmployees :: "Employee list \<Rightarrow> OrganizationState \<Rightarrow> OrganizationState" where
  "fetchEmployees employeeList st =
     st\<lparr>employees := employeeList,
        departments := uniqueValues (map department employeeList),
        loading := False\<rparr>"

definition setSelectedDepartment :: "string \<Rightarrow> OrganizationState \<Rightarrow> OrganizationState" where
  "setSelectedDepartment d st = st\<lparr>selectedDepartment := d\<rparr>"

text \<open>
  The effect on \<open>[employees, selectedDepartment]\<close>: \<open>buildOrgChart\<close> runs only when
  \<open>employees.length > 0\<close>, and stores its forest with \<open>setOrgChart\<close>.
\<close>

definition rebuild :: "Collator \<Rightarrow> nat \<Rightarrow> OrganizationState \<Rightarrow> OrganizationState option" where
  "rebuild localeCompare fuel st =
     (if length (employees st) > 0
      then map_option (\<lambda>forest. st\<lparr>orgChart := forest\<rparr>)
             (buildOrgChart localeCompare fuel (employees st) (selectedDepartment st))
      else Some st)"

definition toggleNode :: "string \<Rightarrow> OrganizationState \<Rightarrow> OrganizationState" where
  "toggleNode nodeId st =
     st\<lparr>expandedNodes :=
          (if nodeId \<in> expandedNodes st then expandedNodes st - {nodeId}
           else insert nodeId (expandedNodes st))\<rparr>"

definition expandAll :: "OrganizationState \<Rightarrow> OrganizationState" where
  "expandAll st = st\<lparr>expandedNodes := set (map id' (employees st))\<rparr>"

definition collapseAll :: "OrganizationState \<Rightarrow> OrganizationState" where
  "collapseAll st = st\<lparr>expandedNodes := {}\<rparr>"

record Stats =
  totalEmployees :: nat
  admins :: nat
  managers :: nat
  employeesCount :: nat
  departmentsCount :: nat

definition stats :: "OrganizationState \<Rightarrow> Stats" where
  "stats st =
     \<lparr>totalEmployees = length (employees st),
      admins = length (filter (\<lambda>emp. role emp = admin) (employees st)),
      managers = length (filter (\<lambda>emp. role emp = manager) (employees st)),
      employeesCount = length (filter (\<lambda>emp. role emp = employee) (employees st)),
      departmentsCount = length (departments st)\<rparr>"

section \<open>Notions used in the statements\<close>

text \<open>
  One comparison that \<open>localeCompare\<close> may be: the order of the code units. It is used
  to run the builder on concrete inputs.
\<close>

definition codeUnitCompare :: Collator where
  "codeUnitCompare a b = (if a < b then - 1 else if a = b then 0 else 1)"

text \<open>
  A consistent comparison in the sense that the sort needs: any two names are
  comparable, and the comparison is transitive.
\<close>

definition consistentCompare :: "('a \<Rightarrow> 'a \<Rightarrow> int) \<Rightarrow> bool" where
  "consistentCompare cmp =
     ((\<forall>a b. cmp a b \<le> 0 \<or> cmp b a \<le> 0) \<and>
      (\<forall>a b c. cmp a b \<le> 0 \<and> cmp b c \<le> 0 \<longrightarrow> cmp a c \<le> 0))"

text \<open>
  \<open>a\<close> may stand in front of \<open>b\<close>: a smaller role priority, or the same priority and a
  name that does not compare greater.
\<close>

definition inOrder :: "Collator \<Rightarrow> BuildState \<Rightarrow> string \<Rightarrow> string \<Rightarrow> bool" where
  "inOrder localeCompare s a b =
     (roleOrder (role (deref s a)) < roleOrder (role (deref s b)) \<or>
      (roleOrder (role (deref s a)) = roleOrder (role (deref s b)) \<and>
       localeCompare (name (deref s a)) (name (deref s b)) \<le> 0))"

text \<open>The walk over the forest that a build returns.\<close>

definition builtForestIds ::
  "Collator \<Rightarrow> nat \<Rightarrow> Employee list \<Rightarrow> string \<Rightarrow> nat \<Rightarrow> string list option" where
  "builtForestIds localeCompare fuel emps sel walkFuel =
     (case buildOrgChart localeCompare fuel emps sel of
        None \<Rightarrow> None
      | Some s \<Rightarrow> forestIds s walkFuel)"

text \<open>Sample inputs: a record that names itself as its manager; two records that name
  each other, beside a record without a manager; two records with the same id.\<close>

definition selfManaged :: "Employee list" where
  "selfManaged =
     [\<lparr>id' = ''x'', name = ''Xena'', department = ''Eng'', managerId = Some ''x'',
        role = employee\<rparr>]"

definition cyclicStaff :: "Employee list" where
  "cyclicStaff =
     [\<lparr>id' = ''a'', name = ''Alice'', department = ''Eng'', managerId = None, role = admin\<rparr>,
      \<lparr>id' = ''x'', name = ''Xena'', department = ''Eng'', managerId = Some ''y'',
        role = employee\<rparr>,
      \<lparr>id' = ''y'', name = ''Yuri'', department = ''Eng'', managerId = Some ''x'',
        role = manager\<rparr>]"

definition duplicateIds :: "Employee list" where
  "duplicateIds =
     [\<lparr>id' = ''a'', name = ''Xena'', department = ''Eng'', managerId = None,
        role = employee\<rparr>,
      \<lparr>id' = ''a'', name = ''Yuri'', department = ''Eng'', managerId = None,
        role = employee\<rparr>]"

definition sampleStaff :: "Employee list" where
  "sampleStaff =
     [\<lparr>id' = ''a'', name = ''Alice'', department = ''Eng'', managerId = None, role = admin\<rparr>,
      \<lparr>id' = ''d'', name = ''Dave'', department = ''Eng'', managerId = Some ''a'',
        role = employee\<rparr>,
      \<lparr>id' = ''b'', name = ''Bob'', department = ''Eng'', managerId = Some ''a'',
        role = manager\<rparr>,
      \<lparr>id' = ''c'', name = ''Carol'', department = ''Sales'', managerId = Some ''b'',
        role = employee\<rparr>]"

text \<open>
  Two states hold the same node objects up to the order inside each array: the same
  keys with the same employee attributes, and arrays with the same elements.
\<close>

definition sameNodes :: "BuildState \<Rightarrow> BuildState \<Rightarrow> bool" where
  "sameNodes s t =
     (mset (rootNodes t) = mset (rootNodes s) \<and> childNodes t = childNodes s \<and>
      (\<forall>k. map_option Employee.truncate (employeeMap t k) =
              map_option Employee.truncate (employeeMap s k) \<and>
            mset (children (deref t k)) = mset (children (deref s k))))"

text \<open>The loop of \<open>forEachLive\<close> over a list of indices, from a result so far.\<close>

definition loopFrom ::
  "('s \<Rightarrow> 'a list) \<Rightarrow> ('a \<Rightarrow> 's \<Rightarrow> 's option) \<Rightarrow> nat list \<Rightarrow> 's option \<Rightarrow> 's option" where
  "loopFrom arr body is acc =
     fold (\<lambda>i acc.
             case acc of
               None \<Rightarrow> None
             | Some s2 \<Rightarrow> if i < length (arr s2) then body (arr s2 ! i) s2 else Some s2)
       is acc"

text \<open>Every reference held in an array points to a node object of the store.\<close>

definition closedRefs :: "BuildState \<Rightarrow> bool" where
  "closedRefs s =
     (set (rootNodes s) \<subseteq> dom (employeeMap s) \<and>
      (\<forall>k n. employeeMap s k = Some n \<longrightarrow> set (children n) \<subseteq> dom (employeeMap s)))"

definition validRef :: "ArrayRef \<Rightarrow> BuildState \<Rightarrow> bool" where
  "validRef a s = (case a of RootNodes \<Rightarrow> True | ChildrenOf r \<Rightarrow> r \<in> dom (employeeMap s))"

text \<open>The nodes of the forest: the roots and everything below them.\<close>

definition inForest :: "BuildState \<Rightarrow> string \<Rightarrow> bool" where
  "inForest s x = (\<exists>r. r \<in> set (rootNodes s) \<and> (r, x) \<in> (childRel s)\<^sup>*)"

text \<open>No node has two parents, and a root has none.\<close>

definition singleParent :: "BuildState \<Rightarrow> bool" where
  "singleParent s =
     ((\<forall>p q c. (p, c) \<in> childRel s \<and> (q, c) \<in> childRel s \<longrightarrow> p = q) \<and>
      (\<forall>p r. r \<in> set (rootNodes s) \<longrightarrow> (p, r) \<notin> childRel s))"

text \<open>No array holds a reference twice.\<close>

definition distinctArrays :: "BuildState \<Rightarrow> bool" where
  "distinctArrays s = (\<forall>a. validRef a s \<longrightarrow> distinct (getArray a s))"

text \<open>The child-of relation below the nodes of the forest.\<close>

definition belowForest :: "BuildState \<Rightarrow> (string \<times> string) set" where
  "belowForest s = {(c, p). (p, c) \<in> childRel s \<and> inForest s p}"

text \<open>An array whose elements stand in order, and a step that leaves each array as it
  was or in order.\<close>

definition sortedArray :: "Collator \<Rightarrow> BuildState \<Rightarrow> ArrayRef \<Rightarrow> bool" where
  "sortedArray localeCompare s a = sorted_wrt (inOrder localeCompare s) (getArray a s)"

definition keepsOrder :: "Collator \<Rightarrow> BuildState \<Rightarrow> BuildState \<Rightarrow> bool" where
  "keepsOrder localeCompare s t =
     (\<forall>b. getArray b t = getArray b s \<or> sortedArray localeCompare t b)"

text \<open>The arrays the sort starts from in a forest: the roots, or the children of one of
  its nodes.\<close>

definition forestArray :: "BuildState \<Rightarrow> ArrayRef \<Rightarrow> bool" where
  "forestArray s a = (case a of RootNodes \<Rightarrow> True | ChildrenOf x \<Rightarrow> inForest s x)"

section \<open>Auxiliary facts\<close>

subsection \<open>Option lists\<close>

lemma those_map_conv:
  "those (map f xs) = (if \<forall>x\<in>set xs. f x \<noteq> None then Some (map (\<lambda>x. the (f x)) xs) else None)"
  by (induction xs) (auto split: option.splits)

subsection \<open>The stable sort\<close>

lemma mset_insertBy: "mset (insertBy cmp x xs) = add_mset x (mset xs)"
  by (induction xs) auto

lemma mset_sortBy: "mset (sortBy cmp xs) = mset xs"
  by (induction xs) (auto simp: sortBy_def mset_insertBy)

lemma set_sortBy: "set (sortBy cmp xs) = set xs"
  using mset_sortBy [of cmp xs] by (metis set_mset_mset)

lemma length_sortBy: "length (sortBy cmp xs) = length xs"
  using mset_sortBy [of cmp xs] by (metis size_mset)

lemma sorted_insertBy:
  assumes "consistentCompare cmp" and "sorted_wrt (\<lambda>a b. cmp a b \<le> 0) xs"
  shows "sorted_wrt (\<lambda>a b. cmp a b \<le> 0) (insertBy cmp x xs)"
  using assms(2)
proof (induction xs)
  case Nil
  then show ?case by simp
next
  case (Cons y ys)
  have tot: "\<And>a b. cmp a b \<le> 0 \<or> cmp b a \<le> 0"
    and trans: "\<And>a b c. cmp a b \<le> 0 \<Longrightarrow> cmp b c \<le> 0 \<Longrightarrow> cmp a c \<le> 0"
    using assms(1) unfolding consistentCompare_def by blast+
  show ?case
  proof (cases "cmp x y \<le> 0")
    case True
    with Cons.prems trans show ?thesis by auto
  next
    case False
    with tot have "cmp y x \<le> 0" by blast
    moreover have "set (insertBy cmp x ys) = insert x (set ys)"
      using mset_insertBy [of cmp x ys] by (metis set_mset_mset set_mset_add_mset_insert)
    ultimately show ?thesis using False Cons by auto
  qed
qed

lemma sorted_sortBy:
  "consistentCompare cmp \<Longrightarrow> sorted_wrt (\<lambda>a b. cmp a b \<le> 0) (sortBy cmp xs)"
  by (induction xs) (simp_all add: sortBy_def sorted_insertBy)

subsection \<open>forEach on a live array\<close>

lemma loopFrom_None: "loopFrom arr body is None = None"
  by (induction "is") (simp_all add: loopFrom_def)

lemma loopFrom_invariant:
  assumes "loopFrom arr body is (Some s) = Some s'" and "I s"
    and "\<And>x s2 s3. I s2 \<Longrightarrow> x \<in> set (arr s2) \<Longrightarrow> body x s2 = Some s3 \<Longrightarrow> I s3"
  shows "I s'"
  using assms(1,2)
proof (induction "is" arbitrary: s)
  case Nil
  then show ?case by (simp add: loopFrom_def)
next
  case (Cons i "is")
  show ?case
  proof (cases "i < length (arr s)")
    case True
    show ?thesis
    proof (cases "body (arr s ! i) s")
      case None
      with True Cons.prems(1) show ?thesis
        using loopFrom_None [of arr body "is"] by (simp add: loopFrom_def)
    next
      case (Some s3)
      with True Cons.prems(2) assms(3) have "I s3" by (meson nth_mem)
      moreover from True Some Cons.prems(1) have "loopFrom arr body is (Some s3) = Some s'"
        by (simp add: loopFrom_def)
      ultimately show ?thesis by (rule Cons.IH[rotated])
    qed
  next
    case False
    with Cons.prems(1) have "loopFrom arr body is (Some s) = Some s'"
      by (simp add: loopFrom_def)
    then show ?thesis using Cons.prems(2) by (rule Cons.IH)
  qed
qed

lemma forEachLive_invariant:
  assumes "forEachLive arr body s = Some s'" and "I s"
    and "\<And>x s2 s3. I s2 \<Longrightarrow> x \<in> set (arr s2) \<Longrightarrow> body x s2 = Some s3 \<Longrightarrow> I s3"
  shows "I s'"
  using loopFrom_invariant [of arr body "[0..<length (arr s)]" s s' I] assms
  by (simp add: forEachLive_def loopFrom_def)

lemma loopFrom_returns:
  assumes "I s"
    and "\<And>x s2. I s2 \<Longrightarrow> x \<in> set (arr s2) \<Longrightarrow> \<exists>s3. body x s2 = Some s3 \<and> I s3"
  shows "\<exists>s'. loopFrom arr body is (Some s) = Some s' \<and> I s'"
  using assms(1)
proof (induction "is" arbitrary: s)
  case Nil
  then show ?case by (simp add: loopFrom_def)
next
  case (Cons i "is")
  show ?case
  proof (cases "i < length (arr s)")
    case True
    with Cons.prems assms(2) obtain s3 where s3: "body (arr s ! i) s = Some s3" "I s3"
      by (meson nth_mem)
    from Cons.IH [OF s3(2)] obtain s' where "loopFrom arr body is (Some s3) = Some s'" "I s'"
      by blast
    with True s3 show ?thesis by (auto simp: loopFrom_def)
  next
    case False
    from Cons.IH [OF Cons.prems] obtain s' where "loopFrom arr body is (Some s) = Some s'" "I s'"
      by blast
    with False show ?thesis by (auto simp: loopFrom_def)
  qed
qed

lemma forEachLive_returns:
  assumes "I s"
    and "\<And>x s2. I s2 \<Longrightarrow> x \<in> set (arr s2) \<Longrightarrow> \<exists>s3. body x s2 = Some s3 \<and> I s3"
  shows "\<exists>s'. forEachLive arr body s = Some s' \<and> I s'"
  using loopFrom_returns [of I s arr body "[0..<length (arr s)]"] assms
  by (simp add: forEachLive_def loopFrom_def)

text \<open>When the callbacks leave the array as it is, every element is visited.\<close>

lemma loopFrom_visits:
  assumes "loopFrom arr body [0..<n] (Some s) = Some s'" and "n \<le> length L" and "I s"
    and "\<And>s2. I s2 \<Longrightarrow> arr s2 = L"
    and "\<And>x s2 s3. I s2 \<Longrightarrow> x \<in> set L \<Longrightarrow> body x s2 = Some s3 \<Longrightarrow> I s3 \<and> P x s3"
    and "\<And>x y s2 s3. I s2 \<Longrightarrow> x \<in> set L \<Longrightarrow> P y s2 \<Longrightarrow> body x s2 = Some s3 \<Longrightarrow> P y s3"
  shows "I s' \<and> (\<forall>i<n. P (L ! i) s')"
  using assms(1,2)
proof (induction n arbitrary: s')
  case 0
  then show ?case using assms(3) by (simp add: loopFrom_def)
next
  case (Suc n)
  from Suc.prems(1) have "loopFrom arr body [n] (loopFrom arr body [0..<n] (Some s)) = Some s'"
    by (simp add: loopFrom_def)
  then obtain s2 where s2: "loopFrom arr body [0..<n] (Some s) = Some s2"
    and step: "loopFrom arr body [n] (Some s2) = Some s'"
    by (cases "loopFrom arr body [0..<n] (Some s)") (simp_all add: loopFrom_def)
  from Suc.IH [OF s2] Suc.prems(2) have I2: "I s2" and P2: "\<forall>i<n. P (L ! i) s2" by simp_all
  from I2 assms(4) have arr: "arr s2 = L" by simp
  with step Suc.prems(2) have body: "body (L ! n) s2 = Some s'"
    by (simp add: loopFrom_def)
  have mem: "L ! n \<in> set L" using Suc.prems(2) by simp
  from assms(5) [OF I2 mem body] have "I s'" "P (L ! n) s'" by simp_all
  moreover have "P (L ! i) s'" if "i < n" for i
    using assms(6) [OF I2 mem _ body] P2 that by blast
  ultimately show ?case by (auto simp: less_Suc_eq)
qed

lemma forEachLive_visits:
  assumes "forEachLive arr body s = Some s'" and "I s" and "arr s = L"
    and "\<And>s2. I s2 \<Longrightarrow> arr s2 = L"
    and "\<And>x s2 s3. I s2 \<Longrightarrow> x \<in> set L \<Longrightarrow> body x s2 = Some s3 \<Longrightarrow> I s3 \<and> P x s3"
    and "\<And>x y s2 s3. I s2 \<Longrightarrow> x \<in> set L \<Longrightarrow> P y s2 \<Longrightarrow> body x s2 = Some s3 \<Longrightarrow> P y s3"
  shows "I s' \<and> (\<forall>x\<in>set L. P x s')"
proof -
  from assms(1,3) have "loopFrom arr body [0..<length L] (Some s) = Some s'"
    by (simp add: forEachLive_def loopFrom_def)
  from loopFrom_visits [of arr body "length L" s s' L I P, OF this _ assms(2) assms(4)
      assms(5) assms(6)]
  show ?thesis by (auto simp: in_set_conv_nth)
qed

subsection \<open>The lookup map\<close>

lemma find_append_conv:
  "find P (xs @ ys) = (case find P xs of None \<Rightarrow> find P ys | Some x \<Rightarrow> Some x)"
  by (induction xs) auto

lemma find_SomeD: "find P xs = Some x \<Longrightarrow> x \<in> set xs \<and> P x"
  by (induction xs) (auto split: if_splits)

lemma fold_set_lookup:
  "fold (\<lambda>emp m. m(id' emp \<mapsto> newNode emp)) emps m k =
     (case find (\<lambda>emp. id' emp = k) (rev emps) of
        None \<Rightarrow> m k
      | Some emp \<Rightarrow> Some (newNode emp))"
  by (induction emps arbitrary: m) (auto simp: find_append_conv split: option.splits)

lemma makeEmployeeMap_lookup:
  "makeEmployeeMap emps k = map_option newNode (find (\<lambda>emp. id' emp = k) (rev emps))"
  by (simp add: makeEmployeeMap_def fold_set_lookup split: option.splits)

lemma dom_makeEmployeeMap: "dom (makeEmployeeMap emps) = id' ` set emps"
  by (auto simp: makeEmployeeMap_lookup dom_def find_None_iff)

lemma makeEmployeeMap_distinct:
  assumes "distinct (map id' emps)" and "emp \<in> set emps"
  shows "makeEmployeeMap emps (id' emp) = Some (newNode emp)"
proof -
  from assms(2) obtain e where e: "find (\<lambda>x. id' x = id' emp) (rev emps) = Some e"
    by (cases "find (\<lambda>x. id' x = id' emp) (rev emps)") (auto simp: find_None_iff)
  then have "e \<in> set emps" "id' e = id' emp"
    using find_SomeD [OF e] by simp_all
  with assms have "e = emp"
    by (meson distinct_map inj_on_def)
  with e show ?thesis by (simp add: makeEmployeeMap_lookup)
qed

subsection \<open>The placement loop\<close>

lemma resolvedManager_dom:
  "dom m = dom m' \<Longrightarrow> resolvedManager m emp = resolvedManager m' emp"
  by (auto simp: resolvedManager_def domIff split: option.splits)

lemma resolvedManager_Some:
  "resolvedManager m emp = Some mid \<longleftrightarrow> managerId emp = Some mid \<and> mid \<noteq> [] \<and> mid \<in> dom m"
  by (auto simp: resolvedManager_def split: option.splits)

lemma resolvedManager_None:
  "resolvedManager m emp = None \<longleftrightarrow>
     managerId emp = None \<or> managerId emp = Some [] \<or> the (managerId emp) \<notin> dom m"
  by (auto simp: resolvedManager_def split: option.splits)

lemma placeEmployee_root_case:
  assumes "employeeMap s (id' emp) = Some node" and "resolvedManager (employeeMap s) emp = None"
  shows "placeEmployee emp s = s\<lparr>rootNodes := rootNodes s @ [id' emp]\<rparr>"
  using assms by (simp add: placeEmployee_def)

lemma placeEmployee_child_case:
  assumes "employeeMap s (id' emp) = Some node"
    and "resolvedManager (employeeMap s) emp = Some mid"
  shows "\<exists>managerNode. employeeMap s mid = Some managerNode \<and>
    placeEmployee emp s =
      s\<lparr>employeeMap := (employeeMap s)
           (mid \<mapsto> managerNode\<lparr>children := children managerNode @ [id' emp]\<rparr>),
        childNodes := insert (id' emp) (childNodes s)\<rparr>"
proof -
  from assms(2) obtain managerNode where "employeeMap s mid = Some managerNode"
    by (auto simp: resolvedManager_Some)
  with assms show ?thesis by (simp add: placeEmployee_def)
qed

lemma placeEmployee_map:
  assumes "id' emp \<in> dom (employeeMap s)"
  shows "employeeMap (placeEmployee emp s) k =
     map_option (\<lambda>n. n\<lparr>children := children n @
        (if resolvedManager (employeeMap s) emp = Some k then [id' emp] else [])\<rparr>)
       (employeeMap s k)"
proof -
  from assms obtain node where node: "employeeMap s (id' emp) = Some node" by blast
  show ?thesis
  proof (cases "resolvedManager (employeeMap s) emp")
    case None
    with placeEmployee_root_case [OF node None] show ?thesis
      by (cases "employeeMap s k") simp_all
  next
    case (Some mid)
    with placeEmployee_child_case [OF node Some] show ?thesis
      by (cases "employeeMap s k") auto
  qed
qed

lemma placeEmployee_dom:
  assumes "id' emp \<in> dom (employeeMap s)"
  shows "dom (employeeMap (placeEmployee emp s)) = dom (employeeMap s)"
  using placeEmployee_map [OF assms] by (auto simp: domIff)

lemma placeEmployee_roots:
  assumes "id' emp \<in> dom (employeeMap s)"
  shows "rootNodes (placeEmployee emp s) = rootNodes s @
    (if resolvedManager (employeeMap s) emp = None then [id' emp] else [])"
proof -
  from assms obtain node where node: "employeeMap s (id' emp) = Some node" by blast
  show ?thesis
  proof (cases "resolvedManager (employeeMap s) emp")
    case None
    with placeEmployee_root_case [OF node None] show ?thesis by simp
  next
    case (Some mid)
    with placeEmployee_child_case [OF node Some] show ?thesis by auto
  qed
qed

lemma placeEmployee_childNodes:
  assumes "id' emp \<in> dom (employeeMap s)"
  shows "childNodes (placeEmployee emp s) = childNodes s \<union>
    (if resolvedManager (employeeMap s) emp = None then {} else {id' emp})"
proof -
  from assms obtain node where node: "employeeMap s (id' emp) = Some node" by blast
  show ?thesis
  proof (cases "resolvedManager (employeeMap s) emp")
    case None
    with placeEmployee_root_case [OF node None] show ?thesis by simp
  next
    case (Some mid)
    with placeEmployee_child_case [OF node Some] show ?thesis by auto
  qed
qed

lemma fold_placeEmployee:
  assumes "id' ` set emps \<subseteq> dom (employeeMap s)"
  shows "dom (employeeMap (fold placeEmployee emps s)) = dom (employeeMap s) \<and>
    rootNodes (fold placeEmployee emps s) = rootNodes s @
      map id' (filter (\<lambda>emp. resolvedManager (employeeMap s) emp = None) emps) \<and>
    childNodes (fold placeEmployee emps s) = childNodes s \<union>
      id' ` {emp \<in> set emps. resolvedManager (employeeMap s) emp \<noteq> None} \<and>
    (\<forall>k. employeeMap (fold placeEmployee emps s) k =
       map_option (\<lambda>n. n\<lparr>children := children n @
          map id' (filter (\<lambda>emp. resolvedManager (employeeMap s) emp = Some k) emps)\<rparr>)
         (employeeMap s k))"
  using assms
proof (induction emps arbitrary: s)
  case Nil
  show ?case by (simp add: option.map_ident)
next
  case (Cons emp emps)
  let ?s1 = "placeEmployee emp s"
  from Cons.prems have mem: "id' emp \<in> dom (employeeMap s)" by simp
  have dom1: "dom (employeeMap ?s1) = dom (employeeMap s)"
    by (rule placeEmployee_dom [OF mem])
  have res: "resolvedManager (employeeMap ?s1) e = resolvedManager (employeeMap s) e" for e
    by (rule resolvedManager_dom [OF dom1])
  from Cons.prems dom1 have "id' ` set emps \<subseteq> dom (employeeMap ?s1)" by simp
  note IH = Cons.IH [OF this, unfolded res]
  have "dom (employeeMap (fold placeEmployee (emp # emps) s)) = dom (employeeMap s)"
    using IH dom1 by simp
  moreover have "rootNodes (fold placeEmployee (emp # emps) s) = rootNodes s @
      map id' (filter (\<lambda>emp. resolvedManager (employeeMap s) emp = None) (emp # emps))"
    using IH placeEmployee_roots [OF mem] by simp
  moreover have "childNodes (fold placeEmployee (emp # emps) s) = childNodes s \<union>
      id' ` {e \<in> set (emp # emps). resolvedManager (employeeMap s) e \<noteq> None}"
    using IH placeEmployee_childNodes [OF mem] by auto
  moreover have "employeeMap (fold placeEmployee (emp # emps) s) k =
       map_option (\<lambda>n. n\<lparr>children := children n @
          map id' (filter (\<lambda>e. resolvedManager (employeeMap s) e = Some k) (emp # emps))\<rparr>)
         (employeeMap s k)" for k
    using IH placeEmployee_map [OF mem, of k] by (cases "employeeMap s k") auto
  ultimately show ?case by blast
qed

lemma placeAll_dom: "dom (employeeMap (placeAll emps)) = id' ` set emps"
  using fold_placeEmployee [of emps
      "\<lparr>employeeMap = makeEmployeeMap emps, rootNodes = [], childNodes = {}\<rparr>"]
  by (simp add: placeAll_def dom_makeEmployeeMap)

lemma placeAll_roots:
  "rootNodes (placeAll emps) =
     map id' (filter (\<lambda>emp. resolvedManager (makeEmployeeMap emps) emp = None) emps)"
  using fold_placeEmployee [of emps
      "\<lparr>employeeMap = makeEmployeeMap emps, rootNodes = [], childNodes = {}\<rparr>"]
  by (simp add: placeAll_def dom_makeEmployeeMap)

lemma placeAll_map:
  "employeeMap (placeAll emps) k =
     map_option (\<lambda>n. n\<lparr>children :=
        map id' (filter (\<lambda>emp. resolvedManager (makeEmployeeMap emps) emp = Some k) emps)\<rparr>)
       (makeEmployeeMap emps k)"
proof -
  have "children n = []" if "makeEmployeeMap emps k = Some n" for n
    using that by (auto simp: makeEmployeeMap_lookup newNode_def Employee.extend_def
        OrgNode.fields_def)
  then show ?thesis
    using fold_placeEmployee [of emps
      "\<lparr>employeeMap = makeEmployeeMap emps, rootNodes = [], childNodes = {}\<rparr>"]
    by (cases "makeEmployeeMap emps k") (simp_all add: placeAll_def dom_makeEmployeeMap)
qed

lemma placeAll_children:
  assumes "k \<in> id' ` set emps"
  shows "getArray (ChildrenOf k) (placeAll emps) =
     map id' (filter (\<lambda>emp. resolvedManager (makeEmployeeMap emps) emp = Some k) emps)"
proof -
  from assms obtain n where "makeEmployeeMap emps k = Some n"
    using dom_makeEmployeeMap [of emps] by blast
  then show ?thesis by (simp add: getArray_def deref_def placeAll_map)
qed

lemma set_managerEdges:
  "set (managerEdges emps) =
     {(mid, id' emp) | mid emp. emp \<in> set emps \<and>
        resolvedManager (makeEmployeeMap emps) emp = Some mid}"
  by (auto simp: managerEdges_def split: option.splits)

lemma childRel_placeAll: "childRel (placeAll emps) = set (managerEdges emps)"
proof -
  have "(p, c) \<in> childRel (placeAll emps) \<longleftrightarrow> (p, c) \<in> set (managerEdges emps)" for p c
  proof
    assume "(p, c) \<in> childRel (placeAll emps)"
    then obtain n where n: "employeeMap (placeAll emps) p = Some n" "c \<in> set (children n)"
      by (auto simp: childRel_def)
    then obtain n0 where "makeEmployeeMap emps p = Some n0"
      and "n = n0\<lparr>children :=
        map id' (filter (\<lambda>emp. resolvedManager (makeEmployeeMap emps) emp = Some p) emps)\<rparr>"
      by (auto simp: placeAll_map)
    with n(2) show "(p, c) \<in> set (managerEdges emps)"
      by (auto simp: set_managerEdges)
  next
    assume "(p, c) \<in> set (managerEdges emps)"
    then obtain emp where emp: "emp \<in> set emps" "c = id' emp"
      "resolvedManager (makeEmployeeMap emps) emp = Some p"
      by (auto simp: set_managerEdges)
    then obtain n0 where n0: "makeEmployeeMap emps p = Some n0"
      by (auto simp: resolvedManager_Some)
    with emp show "(p, c) \<in> childRel (placeAll emps)"
      by (auto simp: childRel_def placeAll_map)
  qed
  then show ?thesis by auto
qed

subsection \<open>States with the same node objects\<close>

lemma sameNodes_refl: "sameNodes s s"
  by (simp add: sameNodes_def)

lemma sameNodes_trans: "sameNodes s t \<Longrightarrow> sameNodes t u \<Longrightarrow> sameNodes s u"
  by (simp add: sameNodes_def)

lemma sameNodes_dom:
  assumes "sameNodes s t"
  shows "dom (employeeMap t) = dom (employeeMap s)"
proof -
  have "employeeMap t k = None \<longleftrightarrow> employeeMap s k = None" for k
    using assms unfolding sameNodes_def by (metis option.map_disc_iff)
  then show ?thesis unfolding dom_def by simp
qed

lemma truncate_attrs:
  assumes "Employee.truncate (n :: OrgNode) = Employee.truncate n'"
  shows "role n = role n'" and "name n = name n'"
proof -
  have "role (Employee.truncate n) = role n" "role (Employee.truncate n') = role n'"
    "name (Employee.truncate n) = name n" "name (Employee.truncate n') = name n'"
    by (simp_all add: Employee.truncate_def)
  with assms show "role n = role n'" and "name n = name n'" by simp_all
qed

lemma sameNodes_attrs:
  assumes "sameNodes s t"
  shows "role (deref t k) = role (deref s k)" and "name (deref t k) = name (deref s k)"
    and "mset (children (deref t k)) = mset (children (deref s k))"
proof -
  from assms have eq: "map_option Employee.truncate (employeeMap t k) =
      map_option Employee.truncate (employeeMap s k)"
    and "mset (children (deref t k)) = mset (children (deref s k))"
    unfolding sameNodes_def by simp_all
  then show "mset (children (deref t k)) = mset (children (deref s k))" by simp
  have "role (deref t k) = role (deref s k) \<and> name (deref t k) = name (deref s k)"
  proof (cases "employeeMap s k")
    case None
    with eq show ?thesis by (simp add: deref_def)
  next
    case (Some n)
    with eq obtain n' where "employeeMap t k = Some n'"
      "Employee.truncate n' = Employee.truncate n" by auto
    with Some truncate_attrs [of n' n] show ?thesis by (simp add: deref_def)
  qed
  then show "role (deref t k) = role (deref s k)" and "name (deref t k) = name (deref s k)"
    by simp_all
qed

lemma sameNodes_array:
  assumes "sameNodes s t"
  shows "mset (getArray a t) = mset (getArray a s)"
proof (cases a)
  case RootNodes
  with assms show ?thesis by (simp add: getArray_def sameNodes_def)
next
  case (ChildrenOf r)
  with sameNodes_attrs(3) [OF assms] show ?thesis by (simp add: getArray_def)
qed

lemma sameNodes_array_set: "sameNodes s t \<Longrightarrow> set (getArray a t) = set (getArray a s)"
  by (metis sameNodes_array set_mset_mset)

lemma childRel_children:
  "(p, c) \<in> childRel s \<longleftrightarrow> p \<in> dom (employeeMap s) \<and> c \<in> set (getArray (ChildrenOf p) s)"
  by (auto simp: childRel_def getArray_def deref_def)

lemma sameNodes_childRel: "sameNodes s t \<Longrightarrow> childRel t = childRel s"
  using sameNodes_dom sameNodes_array_set [of s t] by (auto simp: childRel_children)

lemma closedRefs_array:
  assumes "closedRefs s" and "validRef a s"
  shows "set (getArray a s) \<subseteq> dom (employeeMap s)"
proof (cases a)
  case RootNodes
  with assms show ?thesis by (simp add: getArray_def closedRefs_def)
next
  case (ChildrenOf r)
  with assms(2) obtain n where "employeeMap s r = Some n" by (auto simp: validRef_def)
  with assms(1) ChildrenOf show ?thesis
    unfolding closedRefs_def getArray_def deref_def by auto
qed

lemma sameNodes_closedRefs:
  assumes "sameNodes s t" and "closedRefs s"
  shows "closedRefs t"
proof -
  have "set (rootNodes t) \<subseteq> dom (employeeMap t)"
    using sameNodes_array_set [OF assms(1), of RootNodes] sameNodes_dom [OF assms(1)] assms(2)
    by (simp add: getArray_def closedRefs_def)
  moreover have "set (children n) \<subseteq> dom (employeeMap t)" if "employeeMap t k = Some n" for k n
  proof -
    from that sameNodes_dom [OF assms(1)] have "validRef (ChildrenOf k) s"
      by (auto simp: validRef_def)
    from closedRefs_array [OF assms(2) this]
    show ?thesis
      using sameNodes_array_set [OF assms(1), of "ChildrenOf k"] sameNodes_dom [OF assms(1)] that
      by (simp add: getArray_def deref_def)
  qed
  ultimately show ?thesis unfolding closedRefs_def by blast
qed

lemma sameNodes_validRef: "sameNodes s t \<Longrightarrow> validRef a t = validRef a s"
  by (simp add: validRef_def sameNodes_dom split: ArrayRef.splits)

lemma sameNodes_setArray:
  assumes "validRef a s" and "mset xs = mset (getArray a s)"
  shows "sameNodes s (setArray a xs s)"
proof (cases a)
  case RootNodes
  with assms show ?thesis
    unfolding sameNodes_def setArray_def getArray_def by (simp add: deref_def)
next
  case (ChildrenOf r)
  with assms(1) obtain n where n: "employeeMap s r = Some n" by (auto simp: validRef_def)
  have "Employee.truncate (n\<lparr>children := xs\<rparr>) = Employee.truncate n"
    by (simp add: Employee.truncate_def)
  with assms(2) ChildrenOf n show ?thesis
    unfolding sameNodes_def setArray_def getArray_def deref_def by simp
qed

lemma sameNodes_sortInPlace: "validRef a s \<Longrightarrow> sameNodes s (sortInPlace lc a s)"
  unfolding sortInPlace_def by (rule sameNodes_setArray) (simp_all add: mset_sortBy)

lemma getArray_setArray: "validRef a s \<Longrightarrow> getArray a (setArray a xs s) = xs"
  by (cases a) (auto simp: getArray_def setArray_def deref_def validRef_def)

subsection \<open>What sortNodes keeps\<close>

lemma sortNodes_sameNodes:
  assumes "sortNodes lc fuel a s = Some s'" and "closedRefs s" and "validRef a s"
  shows "sameNodes s s'"
  using assms
proof (induction fuel arbitrary: a s s')
  case 0
  then show ?case by simp
next
  case (Suc fuel)
  let ?s1 = "sortInPlace lc a s"
  let ?body = "\<lambda>node s2. if children (deref s2 node) \<noteq> []
          then sortNodes lc fuel (ChildrenOf node) s2 else Some s2"
  have s1: "sameNodes s ?s1" by (rule sameNodes_sortInPlace [OF Suc.prems(3)])
  from Suc.prems(1) have loop: "forEachLive (getArray a) ?body ?s1 = Some s'" by simp
  have step: "sameNodes s s3"
    if "sameNodes s s2" and "x \<in> set (getArray a s2)" and "?body x s2 = Some s3" for x s2 s3
  proof (cases "children (deref s2 x) \<noteq> []")
    case True
    with that(3) have call: "sortNodes lc fuel (ChildrenOf x) s2 = Some s3" by simp
    have c2: "closedRefs s2" by (rule sameNodes_closedRefs [OF that(1) Suc.prems(2)])
    have "validRef a s2" using sameNodes_validRef [OF that(1)] Suc.prems(3) by simp
    from closedRefs_array [OF c2 this] that(2) have "validRef (ChildrenOf x) s2"
      by (auto simp: validRef_def)
    from Suc.IH [OF call c2 this] that(1) show ?thesis by (rule sameNodes_trans [rotated])
  next
    case False
    with that show ?thesis by simp
  qed
  show ?case
    by (rule forEachLive_invariant [where I = "sameNodes s", OF loop s1 step])
qed

subsection \<open>More fuel gives the same result\<close>

lemma loopFrom_mono:
  assumes "loopFrom arr body is acc = Some s'"
    and "\<And>x s2 s3. body x s2 = Some s3 \<Longrightarrow> body' x s2 = Some s3"
  shows "loopFrom arr body' is acc = Some s'"
  using assms(1)
proof (induction "is" arbitrary: acc)
  case Nil
  then show ?case by (simp add: loopFrom_def)
next
  case (Cons i "is")
  let ?f = "\<lambda>b acc. case acc of None \<Rightarrow> None
     | Some s2 \<Rightarrow> if i < length (arr s2) then b (arr s2 ! i) s2 else Some s2"
  from Cons.prems have run: "loopFrom arr body is (?f body acc) = Some s'"
    by (simp add: loopFrom_def)
  have "?f body acc \<noteq> None"
  proof
    assume "?f body acc = None"
    with run show False by (simp add: loopFrom_None)
  qed
  then have "?f body' acc = ?f body acc"
    using assms(2) by (auto split: option.splits if_splits)
  with Cons.IH [OF run] show ?case by (simp add: loopFrom_def)
qed

lemma forEachLive_mono:
  assumes "forEachLive arr body s = Some s'"
    and "\<And>x s2 s3. body x s2 = Some s3 \<Longrightarrow> body' x s2 = Some s3"
  shows "forEachLive arr body' s = Some s'"
  using loopFrom_mono [of arr body "[0..<length (arr s)]" "Some s" s' body'] assms
  by (simp add: forEachLive_def loopFrom_def)

lemma sortNodes_mono:
  assumes "sortNodes lc fuel a s = Some s'" and "fuel \<le> fuel'"
  shows "sortNodes lc fuel' a s = Some s'"
  using assms
proof (induction fuel arbitrary: a s s' fuel')
  case 0
  then show ?case by simp
next
  case (Suc fuel)
  from Suc.prems(2) obtain g where g: "fuel' = Suc g" "fuel \<le> g" by (cases fuel') auto
  from Suc.prems(1) have "forEachLive (getArray a)
       (\<lambda>node s2. if children (deref s2 node) \<noteq> []
          then sortNodes lc fuel (ChildrenOf node) s2 else Some s2)
       (sortInPlace lc a s) = Some s'" by simp
  then have "forEachLive (getArray a)
       (\<lambda>node s2. if children (deref s2 node) \<noteq> []
          then sortNodes lc g (ChildrenOf node) s2 else Some s2)
       (sortInPlace lc a s) = Some s'"
    by (rule forEachLive_mono) (auto split: if_splits intro: Suc.IH [OF _ g(2)])
  with g(1) show ?case by simp
qed

subsection \<open>The shape of the placed nodes\<close>

lemma placeAll_closedRefs: "closedRefs (placeAll emps)"
proof -
  have "set (rootNodes (placeAll emps)) \<subseteq> dom (employeeMap (placeAll emps))"
    by (auto simp: placeAll_roots placeAll_dom)
  moreover have "set (children n) \<subseteq> dom (employeeMap (placeAll emps))"
    if "employeeMap (placeAll emps) k = Some n" for k n
    using that by (auto simp: placeAll_map placeAll_dom)
  ultimately show ?thesis unfolding closedRefs_def by blast
qed

lemma id_inj:
  assumes "distinct (map id' emps)" and "e1 \<in> set emps" and "e2 \<in> set emps"
    and "id' e1 = id' e2"
  shows "e1 = e2"
  using assms by (meson distinct_map inj_on_def)

lemma placeAll_singleParent:
  assumes "distinct (map id' emps)"
  shows "singleParent (placeAll emps)"
proof -
  have "p = q" if "(p, c) \<in> childRel (placeAll emps)" "(q, c) \<in> childRel (placeAll emps)"
    for p q c
  proof -
    from that obtain e1 e2 where e: "e1 \<in> set emps" "e2 \<in> set emps" "c = id' e1" "c = id' e2"
      "resolvedManager (makeEmployeeMap emps) e1 = Some p"
      "resolvedManager (makeEmployeeMap emps) e2 = Some q"
      by (auto simp: childRel_placeAll set_managerEdges)
    with id_inj [OF assms e(1,2)] show ?thesis by simp
  qed
  moreover have "(p, r) \<notin> childRel (placeAll emps)" if "r \<in> set (rootNodes (placeAll emps))"
    for p r
  proof
    assume "(p, r) \<in> childRel (placeAll emps)"
    with that obtain e1 e2 where e: "e1 \<in> set emps" "e2 \<in> set emps" "r = id' e1" "r = id' e2"
      "resolvedManager (makeEmployeeMap emps) e1 = Some p"
      "resolvedManager (makeEmployeeMap emps) e2 = None"
      by (auto simp: childRel_placeAll set_managerEdges placeAll_roots)
    with id_inj [OF assms e(1,2)] show False by simp
  qed
  ultimately show ?thesis unfolding singleParent_def by blast
qed

lemma placeAll_distinctArrays:
  assumes "distinct (map id' emps)"
  shows "distinctArrays (placeAll emps)"
proof -
  have "distinct (getArray a (placeAll emps))" if "validRef a (placeAll emps)" for a
  proof (cases a)
    case RootNodes
    with assms show ?thesis by (simp add: getArray_def placeAll_roots distinct_map_filter)
  next
    case (ChildrenOf k)
    with that have "k \<in> id' ` set emps" by (simp add: validRef_def placeAll_dom)
    from placeAll_children [OF this] assms ChildrenOf show ?thesis
      by (simp add: distinct_map_filter)
  qed
  then show ?thesis unfolding distinctArrays_def by blast
qed

lemma sameNodes_singleParent:
  assumes "sameNodes s t" and "singleParent s"
  shows "singleParent t"
  using assms sameNodes_childRel [OF assms(1)] sameNodes_array_set [OF assms(1), of RootNodes]
  unfolding singleParent_def getArray_def by simp

lemma sameNodes_distinctArrays:
  assumes "sameNodes s t" and "distinctArrays s"
  shows "distinctArrays t"
  using assms(2) sameNodes_validRef [OF assms(1)] sameNodes_array [OF assms(1)]
  unfolding distinctArrays_def by (metis mset_eq_imp_distinct_iff)

lemma sameNodes_inForest: "sameNodes s t \<Longrightarrow> inForest t x = inForest s x"
  using sameNodes_childRel [of s t] sameNodes_array_set [of s t RootNodes]
  by (simp add: inForest_def getArray_def)

subsection \<open>The forest has no cycle\<close>

lemma inForest_root: "r \<in> set (rootNodes s) \<Longrightarrow> inForest s r"
  unfolding inForest_def by blast

lemma inForest_child: "inForest s p \<Longrightarrow> (p, c) \<in> childRel s \<Longrightarrow> inForest s c"
  unfolding inForest_def by (meson rtrancl.rtrancl_into_rtrancl)

lemma inForest_acyclic:
  assumes "singleParent s" and "inForest s x"
  shows "(x, x) \<notin> (childRel s)\<^sup>+"
proof -
  from assms(2) obtain r where r: "r \<in> set (rootNodes s)" "(r, x) \<in> (childRel s)\<^sup>*"
    unfolding inForest_def by blast
  from r(2) show ?thesis
  proof (induction rule: rtrancl_induct)
    case base
    show ?case
    proof
      assume "(r, r) \<in> (childRel s)\<^sup>+"
      then obtain p where "(p, r) \<in> childRel s" by (meson tranclD2)
      with assms(1) r(1) show False unfolding singleParent_def by blast
    qed
  next
    case (step y z)
    show ?case
    proof
      assume "(z, z) \<in> (childRel s)\<^sup>+"
      then obtain w where w: "(z, w) \<in> (childRel s)\<^sup>*" "(w, z) \<in> childRel s"
        by (meson tranclD2)
      with assms(1) step.hyps(2) have "w = y" unfolding singleParent_def by blast
      with w step.hyps(2) have "(y, y) \<in> (childRel s)\<^sup>+" by (meson rtrancl_into_trancl2)
      with step.IH show False by simp
    qed
  qed
qed

lemma inForest_dom:
  assumes "closedRefs s" and "inForest s x"
  shows "x \<in> dom (employeeMap s)"
proof -
  from assms(2) obtain r where r: "r \<in> set (rootNodes s)" "(r, x) \<in> (childRel s)\<^sup>*"
    unfolding inForest_def by blast
  from r(2) show ?thesis
  proof (cases rule: rtranclE)
    case base
    with r(1) assms(1) show ?thesis unfolding closedRefs_def by blast
  next
    case (step y)
    with assms(1) show ?thesis unfolding closedRefs_def childRel_def by blast
  qed
qed

lemma wf_belowForest:
  assumes "singleParent s" and "finite (childRel s)"
  shows "wf (belowForest s)"
proof (rule finite_acyclic_wf)
  have "belowForest s \<subseteq> (childRel s)\<inverse>" unfolding belowForest_def by auto
  then show "finite (belowForest s)" using assms(2) by (meson finite_converse finite_subset)
  show "acyclic (belowForest s)"
  proof (rule acyclicI, rule allI, rule notI)
    fix x
    assume cyc: "(x, x) \<in> (belowForest s)\<^sup>+"
    then obtain p where "(x, p) \<in> belowForest s" by (meson tranclD)
    then have "inForest s x" unfolding belowForest_def by (auto intro: inForest_child)
    moreover have "belowForest s \<subseteq> (childRel s)\<inverse>" unfolding belowForest_def by auto
    then have "(belowForest s)\<^sup>+ \<subseteq> ((childRel s)\<inverse>)\<^sup>+" by (rule trancl_mono_subset)
    with cyc have "(x, x) \<in> (childRel s)\<^sup>+" by (auto simp: trancl_converse)
    ultimately show False using inForest_acyclic [OF assms(1)] by blast
  qed
qed

lemma finite_childRel_placeAll: "finite (childRel (placeAll emps))"
  by (simp add: childRel_placeAll)

subsection \<open>sortNodes returns on the forest\<close>

text \<open>
  If the sort returns on the children of every element of an array, with a fuel that
  does not depend on the order inside the arrays, then it returns on the array.
\<close>

lemma sortNodes_returns_array:
  assumes closed: "closedRefs s0" and valid: "validRef a s0"
    and elems: "\<And>c. c \<in> set (getArray a s0) \<Longrightarrow>
       \<exists>fuel. \<forall>s. sameNodes s0 s \<longrightarrow> (\<exists>s'. sortNodes lc fuel (ChildrenOf c) s = Some s')"
  shows "\<exists>fuel. \<forall>s. sameNodes s0 s \<longrightarrow> (\<exists>s'. sortNodes lc fuel a s = Some s')"
proof -
  from elems have "\<forall>c\<in>set (getArray a s0). \<exists>fuel. \<forall>s. sameNodes s0 s \<longrightarrow>
      (\<exists>s'. sortNodes lc fuel (ChildrenOf c) s = Some s')" by blast
  then obtain g where g: "\<And>c s. c \<in> set (getArray a s0) \<Longrightarrow> sameNodes s0 s \<Longrightarrow>
      \<exists>s'. sortNodes lc (g c) (ChildrenOf c) s = Some s'"
    by (auto dest!: bchoice)
  define F where "F = sum_list (map g (getArray a s0))"
  have le: "g c \<le> F" if "c \<in> set (getArray a s0)" for c
    unfolding F_def using that by (simp add: member_le_sum_list)
  have "\<exists>s'. sortNodes lc (Suc F) a s = Some s'" if same: "sameNodes s0 s" for s
  proof -
    let ?body = "\<lambda>node s2. if children (deref s2 node) \<noteq> []
          then sortNodes lc F (ChildrenOf node) s2 else Some s2"
    have v: "validRef a s" using sameNodes_validRef [OF same] valid by simp
    have s1: "sameNodes s0 (sortInPlace lc a s)"
      using same sameNodes_sortInPlace [OF v] by (rule sameNodes_trans)
    have step: "\<exists>s3. ?body x s2 = Some s3 \<and> sameNodes s0 s3"
      if "sameNodes s0 s2" and "x \<in> set (getArray a s2)" for x s2
    proof (cases "children (deref s2 x) \<noteq> []")
      case True
      from that have x: "x \<in> set (getArray a s0)" using sameNodes_array_set by blast
      from g [OF x that(1)] obtain s3 where "sortNodes lc (g x) (ChildrenOf x) s2 = Some s3"
        by blast
      then have call: "sortNodes lc F (ChildrenOf x) s2 = Some s3"
        using le [OF x] by (rule sortNodes_mono)
      have c2: "closedRefs s2" by (rule sameNodes_closedRefs [OF that(1) closed])
      have "validRef a s2" using sameNodes_validRef [OF that(1)] valid by simp
      from closedRefs_array [OF c2 this] that(2) have "validRef (ChildrenOf x) s2"
        by (auto simp: validRef_def)
      from sortNodes_sameNodes [OF call c2 this] that(1) have "sameNodes s0 s3"
        by (rule sameNodes_trans [rotated])
      with call True show ?thesis by simp
    next
      case False
      with that(1) show ?thesis by simp
    qed
    from forEachLive_returns [where I = "sameNodes s0" and arr = "getArray a" and body = ?body,
        OF s1 step]
    show ?thesis by auto
  qed
  then show ?thesis by blast
qed

lemma sortNodes_returns_node:
  assumes "closedRefs s0" and "singleParent s0" and "finite (childRel s0)" and "inForest s0 x"
  shows "\<exists>fuel. \<forall>s. sameNodes s0 s \<longrightarrow> (\<exists>s'. sortNodes lc fuel (ChildrenOf x) s = Some s')"
  using wf_belowForest [OF assms(2,3)] assms(4)
proof (induction x rule: wf_induct_rule)
  case (less x)
  have x: "x \<in> dom (employeeMap s0)" by (rule inForest_dom [OF assms(1) less.prems])
  then have valid: "validRef (ChildrenOf x) s0" by (simp add: validRef_def)
  show ?case
  proof (rule sortNodes_returns_array [OF assms(1) valid])
    fix c
    assume "c \<in> set (getArray (ChildrenOf x) s0)"
    with x have edge: "(x, c) \<in> childRel s0" by (simp add: childRel_children)
    with less.prems have "(c, x) \<in> belowForest s0" "inForest s0 c"
      by (auto simp: belowForest_def intro: inForest_child)
    then show "\<exists>fuel. \<forall>s. sameNodes s0 s \<longrightarrow>
        (\<exists>s'. sortNodes lc fuel (ChildrenOf c) s = Some s')"
      by (rule less.IH)
  qed
qed

lemma sortNodes_returns_forest:
  assumes "closedRefs s0" and "singleParent s0" and "finite (childRel s0)"
  shows "\<exists>fuel s'. sortNodes lc fuel RootNodes s0 = Some s'"
proof -
  have "\<exists>fuel. \<forall>s. sameNodes s0 s \<longrightarrow> (\<exists>s'. sortNodes lc fuel RootNodes s = Some s')"
  proof (rule sortNodes_returns_array [OF assms(1)])
    show "validRef RootNodes s0" by (simp add: validRef_def)
    fix c
    assume "c \<in> set (getArray RootNodes s0)"
    then have "inForest s0 c" by (simp add: getArray_def inForest_root)
    then show "\<exists>fuel. \<forall>s. sameNodes s0 s \<longrightarrow>
        (\<exists>s'. sortNodes lc fuel (ChildrenOf c) s = Some s')"
      by (rule sortNodes_returns_node [OF assms])
  qed
  then show ?thesis using sameNodes_refl by blast
qed

text \<open>With unique ids the build returns, and its result holds the placed nodes.\<close>

lemma buildOrgChart_returns:
  assumes "distinct (map id' (filteredEmployees emps sel))"
  shows "\<exists>fuel s. buildOrgChart lc fuel emps sel = Some s"
  unfolding buildOrgChart_def
  by (rule sortNodes_returns_forest [OF placeAll_closedRefs placeAll_singleParent [OF assms]
        finite_childRel_placeAll])

lemma buildOrgChart_sameNodes:
  assumes "buildOrgChart lc fuel emps sel = Some s"
  shows "sameNodes (placeAll (filteredEmployees emps sel)) s"
  using assms unfolding buildOrgChart_def
  by (rule sortNodes_sameNodes [OF _ placeAll_closedRefs]) (simp add: validRef_def)

subsection \<open>The walk over the forest\<close>

lemma subtreeIds_mono:
  assumes "subtreeIds s fuel x = Some ns" and "fuel \<le> fuel'"
  shows "subtreeIds s fuel' x = Some ns"
  using assms
proof (induction fuel arbitrary: x ns fuel')
  case 0
  then show ?case by simp
next
  case (Suc fuel)
  from Suc.prems(2) obtain g where g: "fuel' = Suc g" "fuel \<le> g" by (cases fuel') auto
  let ?cs = "children (deref s x)"
  from Suc.prems(1) have all: "\<forall>c\<in>set ?cs. subtreeIds s fuel c \<noteq> None"
    and ns: "ns = x # concat (map (\<lambda>c. the (subtreeIds s fuel c)) ?cs)"
    by (auto simp: those_map_conv split: if_splits)
  have "subtreeIds s g c = subtreeIds s fuel c" if "c \<in> set ?cs" for c
  proof -
    from all that obtain ms where "subtreeIds s fuel c = Some ms" by auto
    with Suc.IH [OF this g(2)] show ?thesis by simp
  qed
  then have eq: "map (subtreeIds s g) ?cs = map (subtreeIds s fuel) ?cs" by simp
  from Suc.prems(1) have "map_option (\<lambda>subs. x # concat subs)
       (those (map (subtreeIds s fuel) ?cs)) = Some ns"
    by (simp only: subtreeIds.simps)
  then have "subtreeIds s (Suc g) x = Some ns"
    by (simp only: subtreeIds.simps eq)
  with g(1) show ?case by simp
qed

lemma distinct_concat_map:
  assumes "distinct cs" and "\<And>c. c \<in> set cs \<Longrightarrow> distinct (h c)"
    and "\<And>c d. c \<in> set cs \<Longrightarrow> d \<in> set cs \<Longrightarrow> c \<noteq> d \<Longrightarrow> set (h c) \<inter> set (h d) = {}"
  shows "distinct (concat (map h cs))"
  using assms
proof (induction cs)
  case Nil
  then show ?case by simp
next
  case (Cons c cs)
  have "distinct (concat (map h cs))"
    by (rule Cons.IH) (use Cons.prems in auto)
  moreover have "set (h c) \<inter> set (h d) = {}" if "d \<in> set cs" for d
    using Cons.prems(1) Cons.prems(3) [of c d] that by auto
  ultimately show ?case using Cons.prems(2) [of c] by auto
qed

text \<open>Two nodes above the same node lie on one path.\<close>

lemma ancestors_comparable:
  assumes "singleParent s" and "(a, y) \<in> (childRel s)\<^sup>*" and "(b, y) \<in> (childRel s)\<^sup>*"
  shows "(a, b) \<in> (childRel s)\<^sup>* \<or> (b, a) \<in> (childRel s)\<^sup>*"
  using assms(2,3)
proof (induction rule: rtrancl_induct)
  case base
  then show ?case by simp
next
  case (step y z)
  from step.prems show ?case
  proof (cases rule: rtranclE)
    case base
    with step.hyps show ?thesis by (meson rtrancl.rtrancl_into_rtrancl)
  next
    case (step w)
    with assms(1) \<open>(y, z) \<in> childRel s\<close> have "w = y" unfolding singleParent_def by blast
    with step(1) show ?thesis by (rule_tac step.IH) simp
  qed
qed

lemma siblings_disjoint:
  assumes "singleParent s" and "(x, x) \<notin> (childRel s)\<^sup>+"
    and "(x, c) \<in> childRel s" and "(x, d) \<in> childRel s" and "c \<noteq> d"
    and "(c, y) \<in> (childRel s)\<^sup>*"
  shows "(d, y) \<notin> (childRel s)\<^sup>*"
proof
  assume "(d, y) \<in> (childRel s)\<^sup>*"
  have loop: False if "(u, v) \<in> (childRel s)\<^sup>*" "u \<noteq> v" "(x, u) \<in> childRel s"
    "(x, v) \<in> childRel s" for u v
  proof -
    from that(1,2) have "(u, v) \<in> (childRel s)\<^sup>+" by (meson rtranclD)
    then obtain w where w: "(u, w) \<in> (childRel s)\<^sup>*" "(w, v) \<in> childRel s" by (meson tranclD2)
    with assms(1) that(4) have "w = x" unfolding singleParent_def by blast
    with w(1) that(3) have "(x, x) \<in> (childRel s)\<^sup>+" by (meson rtrancl_into_trancl2)
    with assms(2) show False by simp
  qed
  from ancestors_comparable [OF assms(1,6) \<open>(d, y) \<in> (childRel s)\<^sup>*\<close>]
  show False using loop [of c d] loop [of d c] assms(3,4,5) by blast
qed

lemma roots_disjoint:
  assumes "singleParent s" and "r \<in> set (rootNodes s)" and "q \<in> set (rootNodes s)"
    and "r \<noteq> q" and "(r, y) \<in> (childRel s)\<^sup>*"
  shows "(q, y) \<notin> (childRel s)\<^sup>*"
proof
  assume "(q, y) \<in> (childRel s)\<^sup>*"
  have loop: False if "(u, v) \<in> (childRel s)\<^sup>*" "u \<noteq> v" "v \<in> set (rootNodes s)" for u v
  proof -
    from that(1,2) have "(u, v) \<in> (childRel s)\<^sup>+" by (meson rtranclD)
    then obtain w where "(w, v) \<in> childRel s" by (meson tranclD2)
    with assms(1) that(3) show False unfolding singleParent_def by blast
  qed
  from ancestors_comparable [OF assms(1,5) \<open>(q, y) \<in> (childRel s)\<^sup>*\<close>]
  show False using loop [of r q] loop [of q r] assms(2,3,4) by blast
qed

text \<open>
  The walk returns on every node of the forest; it lists the node and everything
  below it, each once.
\<close>

lemma subtreeIds_returns:
  assumes "closedRefs s" and "singleParent s" and "finite (childRel s)"
    and "distinctArrays s" and "inForest s x"
  shows "\<exists>fuel ns. subtreeIds s fuel x = Some ns \<and> distinct ns \<and>
           set ns = {y. (x, y) \<in> (childRel s)\<^sup>*}"
  using wf_belowForest [OF assms(2,3)] assms(5)
proof (induction x rule: wf_induct_rule)
  case (less x)
  let ?cs = "children (deref s x)"
  have x: "x \<in> dom (employeeMap s)" by (rule inForest_dom [OF assms(1) less.prems])
  then have edges: "(x, c) \<in> childRel s \<longleftrightarrow> c \<in> set ?cs" for c
    by (simp add: childRel_children getArray_def)
  have acyc: "(x, x) \<notin> (childRel s)\<^sup>+" by (rule inForest_acyclic [OF assms(2) less.prems])
  have "\<forall>c\<in>set ?cs. \<exists>fuel ns. subtreeIds s fuel c = Some ns \<and> distinct ns \<and>
           set ns = {y. (c, y) \<in> (childRel s)\<^sup>*}"
  proof
    fix c
    assume "c \<in> set ?cs"
    with edges less.prems have "(c, x) \<in> belowForest s" "inForest s c"
      by (auto simp: belowForest_def intro: inForest_child)
    then show "\<exists>fuel ns. subtreeIds s fuel c = Some ns \<and> distinct ns \<and>
           set ns = {y. (c, y) \<in> (childRel s)\<^sup>*}"
      by (rule less.IH)
  qed
  then obtain g where g: "\<And>c. c \<in> set ?cs \<Longrightarrow>
      \<exists>ns. subtreeIds s (g c) c = Some ns \<and> distinct ns \<and> set ns = {y. (c, y) \<in> (childRel s)\<^sup>*}"
    by (auto dest!: bchoice)
  define F where "F = sum_list (map g ?cs)"
  define h where "h = (\<lambda>c. the (subtreeIds s F c))"
  have sub: "subtreeIds s F c = Some (h c) \<and> distinct (h c) \<and>
      set (h c) = {y. (c, y) \<in> (childRel s)\<^sup>*}" if "c \<in> set ?cs" for c
  proof -
    from g [OF that] obtain ns where ns: "subtreeIds s (g c) c = Some ns" "distinct ns"
      "set ns = {y. (c, y) \<in> (childRel s)\<^sup>*}" by blast
    have "g c \<le> F" unfolding F_def using that by (simp add: member_le_sum_list)
    from subtreeIds_mono [OF ns(1) this] ns(2,3) show ?thesis by (simp add: h_def)
  qed
  have "\<forall>c\<in>set ?cs. subtreeIds s F c \<noteq> None" using sub by auto
  then have run: "subtreeIds s (Suc F) x = Some (x # concat (map h ?cs))"
    by (simp add: those_map_conv h_def)
  have "distinct ?cs"
    using assms(4) x unfolding distinctArrays_def validRef_def getArray_def
    by (metis ArrayRef.simps(5))
  then have d1: "distinct (concat (map h ?cs))"
  proof (rule distinct_concat_map)
    show "distinct (h c)" if "c \<in> set ?cs" for c using sub [OF that] by simp
    show "set (h c) \<inter> set (h d) = {}" if "c \<in> set ?cs" "d \<in> set ?cs" "c \<noteq> d" for c d
      using siblings_disjoint [OF assms(2) acyc, of c d] that sub edges by auto
  qed
  have d2: "x \<notin> set (concat (map h ?cs))"
  proof
    assume "x \<in> set (concat (map h ?cs))"
    then obtain c where c: "c \<in> set ?cs" "x \<in> set (h c)" by auto
    with sub have "(c, x) \<in> (childRel s)\<^sup>*" by simp
    with c(1) edges have "(x, x) \<in> (childRel s)\<^sup>+" by (meson rtrancl_into_trancl2)
    with acyc show False by simp
  qed
  have "set (x # concat (map h ?cs)) = {y. (x, y) \<in> (childRel s)\<^sup>*}"
  proof (intro set_eqI iffI)
    fix y
    assume "y \<in> set (x # concat (map h ?cs))"
    then consider "y = x" | c where "c \<in> set ?cs" "y \<in> set (h c)" by auto
    then show "y \<in> {y. (x, y) \<in> (childRel s)\<^sup>*}"
    proof cases
      case 1
      then show ?thesis by simp
    next
      case 2
      with sub edges show ?thesis by (auto intro: converse_rtrancl_into_rtrancl)
    qed
  next
    fix y
    assume "y \<in> {y. (x, y) \<in> (childRel s)\<^sup>*}"
    then have "(x, y) \<in> (childRel s)\<^sup>*" by simp
    then show "y \<in> set (x # concat (map h ?cs))"
    proof (cases rule: converse_rtranclE)
      case base
      then show ?thesis by simp
    next
      case (step c)
      with edges sub show ?thesis by auto
    qed
  qed
  with run d1 d2 show ?case by (intro exI [of _ "Suc F"] exI [of _ "x # concat (map h ?cs)"]) simp
qed

lemma forestIds_returns:
  assumes "closedRefs s" and "singleParent s" and "finite (childRel s)"
    and "distinctArrays s"
  shows "\<exists>fuel ns. forestIds s fuel = Some ns \<and> distinct ns \<and> set ns = {y. inForest s y}"
proof -
  let ?rs = "rootNodes s"
  have "\<forall>r\<in>set ?rs. \<exists>fuel ns. subtreeIds s fuel r = Some ns \<and> distinct ns \<and>
           set ns = {y. (r, y) \<in> (childRel s)\<^sup>*}"
    using subtreeIds_returns [OF assms] inForest_root by blast
  then obtain g where g: "\<And>r. r \<in> set ?rs \<Longrightarrow>
      \<exists>ns. subtreeIds s (g r) r = Some ns \<and> distinct ns \<and> set ns = {y. (r, y) \<in> (childRel s)\<^sup>*}"
    by (auto dest!: bchoice)
  define F where "F = sum_list (map g ?rs)"
  define h where "h = (\<lambda>r. the (subtreeIds s F r))"
  have sub: "subtreeIds s F r = Some (h r) \<and> distinct (h r) \<and>
      set (h r) = {y. (r, y) \<in> (childRel s)\<^sup>*}" if "r \<in> set ?rs" for r
  proof -
    from g [OF that] obtain ns where ns: "subtreeIds s (g r) r = Some ns" "distinct ns"
      "set ns = {y. (r, y) \<in> (childRel s)\<^sup>*}" by blast
    have "g r \<le> F" unfolding F_def using that by (simp add: member_le_sum_list)
    from subtreeIds_mono [OF ns(1) this] ns(2,3) show ?thesis by (simp add: h_def)
  qed
  have "\<forall>r\<in>set ?rs. subtreeIds s F r \<noteq> None" using sub by auto
  then have run: "forestIds s F = Some (concat (map h ?rs))"
    by (simp add: forestIds_def those_map_conv h_def)
  have "distinct ?rs"
    using assms(4) unfolding distinctArrays_def validRef_def getArray_def
    by (metis ArrayRef.simps(4))
  then have "distinct (concat (map h ?rs))"
  proof (rule distinct_concat_map)
    show "distinct (h r) " if "r \<in> set ?rs" for r using sub [OF that] by simp
    show "set (h r) \<inter> set (h q) = {}" if "r \<in> set ?rs" "q \<in> set ?rs" "r \<noteq> q" for r q
      using roots_disjoint [OF assms(2), of r q] that sub by auto
  qed
  moreover have "set (concat (map h ?rs)) = {y. inForest s y}"
    using sub by (auto simp: inForest_def)
  ultimately show ?thesis using run by blast
qed

text \<open>Whenever the walk returns, it lists nodes of the forest only, and all of them.\<close>

lemma subtreeIds_set:
  assumes "subtreeIds s fuel x = Some ns" and "x \<in> dom (employeeMap s)" and "closedRefs s"
  shows "set ns = {y. (x, y) \<in> (childRel s)\<^sup>*}"
  using assms(1,2)
proof (induction fuel arbitrary: x ns)
  case 0
  then show ?case by simp
next
  case (Suc fuel)
  let ?cs = "children (deref s x)"
  from Suc.prems(1) have all: "\<forall>c\<in>set ?cs. subtreeIds s fuel c \<noteq> None"
    and ns: "ns = x # concat (map (\<lambda>c. the (subtreeIds s fuel c)) ?cs)"
    by (auto simp: those_map_conv split: if_splits)
  have edges: "(x, c) \<in> childRel s \<longleftrightarrow> c \<in> set ?cs" for c
    using Suc.prems(2) by (simp add: childRel_children getArray_def)
  have sub: "set (the (subtreeIds s fuel c)) = {y. (c, y) \<in> (childRel s)\<^sup>*}"
    if "c \<in> set ?cs" for c
  proof -
    from all that obtain ms where ms: "subtreeIds s fuel c = Some ms" by auto
    from Suc.prems(2) have "validRef (ChildrenOf x) s" by (simp add: validRef_def)
    from closedRefs_array [OF assms(3) this] that have "c \<in> dom (employeeMap s)"
      by (auto simp: getArray_def)
    from Suc.IH [OF ms this] ms show ?thesis by simp
  qed
  show ?case
  proof (intro set_eqI iffI)
    fix y
    assume "y \<in> set ns"
    with ns consider "y = x" | c where "c \<in> set ?cs" "y \<in> set (the (subtreeIds s fuel c))"
      by auto
    then show "y \<in> {y. (x, y) \<in> (childRel s)\<^sup>*}"
    proof cases
      case 1
      then show ?thesis by simp
    next
      case 2
      with sub edges show ?thesis by (auto intro: converse_rtrancl_into_rtrancl)
    qed
  next
    fix y
    assume "y \<in> {y. (x, y) \<in> (childRel s)\<^sup>*}"
    then have "(x, y) \<in> (childRel s)\<^sup>*" by simp
    then show "y \<in> set ns"
    proof (cases rule: converse_rtranclE)
      case base
      with ns show ?thesis by simp
    next
      case (step c)
      with edges sub ns show ?thesis by auto
    qed
  qed
qed

lemma forestIds_set:
  assumes "forestIds s fuel = Some ns" and "closedRefs s"
  shows "set ns = {y. inForest s y}"
proof -
  let ?rs = "rootNodes s"
  from assms(1) have all: "\<forall>r\<in>set ?rs. subtreeIds s fuel r \<noteq> None"
    and ns: "ns = concat (map (\<lambda>r. the (subtreeIds s fuel r)) ?rs)"
    by (auto simp: forestIds_def those_map_conv split: if_splits)
  have "set (the (subtreeIds s fuel r)) = {y. (r, y) \<in> (childRel s)\<^sup>*}" if "r \<in> set ?rs" for r
  proof -
    from all that obtain ms where ms: "subtreeIds s fuel r = Some ms" by auto
    from that assms(2) have "r \<in> dom (employeeMap s)" unfolding closedRefs_def by auto
    from subtreeIds_set [OF ms this assms(2)] ms show ?thesis by simp
  qed
  with ns show ?thesis by (auto simp: inForest_def)
qed

subsection \<open>The order of the sorted arrays\<close>

lemma roleOrder_range: "0 \<le> roleOrder r \<and> roleOrder r \<le> 2"
  by (cases r) (simp_all add: roleOrder_def)

lemma compareNodes_inOrder:
  "compareNodes lc (deref s a) (deref s b) \<le> 0 \<longleftrightarrow> inOrder lc s a b"
  by (auto simp: compareNodes_def inOrder_def Let_def)

lemma consistent_compareNodes:
  assumes "consistentCompare lc"
  shows "consistentCompare (\<lambda>a b. compareNodes lc (deref s a) (deref s b))"
proof -
  have tot: "\<And>a b. lc a b \<le> 0 \<or> lc b a \<le> 0"
    and trans: "\<And>a b c. lc a b \<le> 0 \<Longrightarrow> lc b c \<le> 0 \<Longrightarrow> lc a c \<le> 0"
    using assms unfolding consistentCompare_def by blast+
  have "inOrder lc s a b \<or> inOrder lc s b a" for a b
    using tot [of "name (deref s a)" "name (deref s b)"] by (auto simp: inOrder_def)
  moreover have "inOrder lc s a c" if "inOrder lc s a b" "inOrder lc s b c" for a b c
    using that trans [of "name (deref s a)" "name (deref s b)" "name (deref s c)"]
    by (auto simp: inOrder_def)
  ultimately show ?thesis
    unfolding consistentCompare_def compareNodes_inOrder by blast
qed

lemma sameNodes_inOrder: "sameNodes s t \<Longrightarrow> inOrder lc t = inOrder lc s"
  by (intro ext) (simp add: inOrder_def sameNodes_attrs)

lemma sameNodes_sortedArray:
  assumes "sameNodes s t" and "getArray a t = getArray a s"
  shows "sortedArray lc t a = sortedArray lc s a"
  using assms by (simp add: sortedArray_def sameNodes_inOrder)

lemma sortInPlace_sorted:
  assumes "consistentCompare lc" and "validRef a s"
  shows "sortedArray lc (sortInPlace lc a s) a"
proof -
  have "sorted_wrt (inOrder lc s) (getArray a (sortInPlace lc a s))"
    using sorted_sortBy [OF consistent_compareNodes [OF assms(1), of s], of "getArray a s"]
    by (simp add: sortInPlace_def getArray_setArray [OF assms(2)] compareNodes_inOrder)
  then show ?thesis
    by (simp add: sortedArray_def sameNodes_inOrder [OF sameNodes_sortInPlace [OF assms(2)]])
qed

lemma getArray_setArray_other: "b \<noteq> a \<Longrightarrow> getArray b (setArray a xs s) = getArray b s"
  by (cases a; cases b) (auto simp: getArray_def setArray_def deref_def)

lemma keepsOrder_refl: "keepsOrder lc s s"
  by (simp add: keepsOrder_def)

lemma keepsOrder_trans:
  assumes "keepsOrder lc s t" and "keepsOrder lc t u" and "sameNodes t u"
  shows "keepsOrder lc s u"
proof -
  have "getArray b u = getArray b s \<or> sortedArray lc u b" for b
  proof (cases "getArray b u = getArray b t")
    case True
    with assms(1) sameNodes_sortedArray [OF assms(3) True] show ?thesis
      unfolding keepsOrder_def by metis
  next
    case False
    with assms(2) show ?thesis unfolding keepsOrder_def by blast
  qed
  then show ?thesis unfolding keepsOrder_def by blast
qed

lemma keepsOrder_sortInPlace:
  assumes "consistentCompare lc" and "validRef a s"
  shows "keepsOrder lc s (sortInPlace lc a s)"
proof -
  have "getArray b (sortInPlace lc a s) = getArray b s \<or> sortedArray lc (sortInPlace lc a s) b"
    for b
  proof (cases "b = a")
    case True
    with sortInPlace_sorted [OF assms] show ?thesis by simp
  next
    case False
    then show ?thesis by (simp add: sortInPlace_def getArray_setArray_other)
  qed
  then show ?thesis unfolding keepsOrder_def by blast
qed

lemma keepsOrder_sorted:
  assumes "keepsOrder lc s t" and "sameNodes s t" and "sortedArray lc s b"
  shows "sortedArray lc t b"
  using assms sameNodes_sortedArray [OF assms(2), of b] unfolding keepsOrder_def by metis

lemma sortNodes_keepsOrder:
  assumes "sortNodes lc fuel a s = Some s'" and "consistentCompare lc" and "closedRefs s"
    and "validRef a s"
  shows "keepsOrder lc s s'"
  using assms(1,3,4)
proof (induction fuel arbitrary: a s s')
  case 0
  then show ?case by simp
next
  case (Suc fuel)
  let ?s1 = "sortInPlace lc a s"
  let ?body = "\<lambda>node s2. if children (deref s2 node) \<noteq> []
          then sortNodes lc fuel (ChildrenOf node) s2 else Some s2"
  let ?I = "\<lambda>s2. sameNodes s s2 \<and> keepsOrder lc s s2"
  from Suc.prems(1) have loop: "forEachLive (getArray a) ?body ?s1 = Some s'" by simp
  have s1: "?I ?s1"
    using sameNodes_sortInPlace [OF Suc.prems(3)] keepsOrder_sortInPlace [OF assms(2) Suc.prems(3)]
    by simp
  have step: "?I s3" if "?I s2" and "x \<in> set (getArray a s2)" and "?body x s2 = Some s3"
    for x s2 s3
  proof (cases "children (deref s2 x) \<noteq> []")
    case True
    with that(3) have call: "sortNodes lc fuel (ChildrenOf x) s2 = Some s3" by simp
    from that(1) have same: "sameNodes s s2" and keep: "keepsOrder lc s s2" by simp_all
    have c2: "closedRefs s2" by (rule sameNodes_closedRefs [OF same Suc.prems(2)])
    have "validRef a s2" using sameNodes_validRef [OF same] Suc.prems(3) by simp
    from closedRefs_array [OF c2 this] that(2) have v: "validRef (ChildrenOf x) s2"
      by (auto simp: validRef_def)
    have same23: "sameNodes s2 s3" by (rule sortNodes_sameNodes [OF call c2 v])
    from Suc.IH [OF call c2 v] have "keepsOrder lc s2 s3" .
    with keep have "keepsOrder lc s s3" using same23 by (rule keepsOrder_trans)
    moreover from same same23 have "sameNodes s s3" by (rule sameNodes_trans)
    ultimately show ?thesis by simp
  next
    case False
    with that show ?thesis by simp
  qed
  from forEachLive_invariant [where I = ?I, OF loop s1 step] show ?case by simp
qed

subsection \<open>What sortNodes leaves alone\<close>

lemma sortNodes_frame:
  assumes "sortNodes lc fuel (ChildrenOf x) s = Some s'" and "closedRefs s"
    and "x \<in> dom (employeeMap s)"
  shows "rootNodes s' = rootNodes s \<and>
    (\<forall>y. (x, y) \<notin> (childRel s)\<^sup>* \<longrightarrow> getArray (ChildrenOf y) s' = getArray (ChildrenOf y) s)"
  using assms
proof (induction fuel arbitrary: x s s')
  case 0
  then show ?case by simp
next
  case (Suc fuel)
  let ?a = "ChildrenOf x"
  let ?s1 = "sortInPlace lc ?a s"
  let ?body = "\<lambda>node s2. if children (deref s2 node) \<noteq> []
          then sortNodes lc fuel (ChildrenOf node) s2 else Some s2"
  let ?I = "\<lambda>s2. sameNodes s s2 \<and> rootNodes s2 = rootNodes s \<and>
    (\<forall>y. (x, y) \<notin> (childRel s)\<^sup>* \<longrightarrow> getArray (ChildrenOf y) s2 = getArray (ChildrenOf y) s)"
  have valid: "validRef ?a s" using Suc.prems(3) by (simp add: validRef_def)
  from Suc.prems(1) have loop: "forEachLive (getArray ?a) ?body ?s1 = Some s'" by simp
  have "getArray (ChildrenOf y) ?s1 = getArray (ChildrenOf y) s" if "(x, y) \<notin> (childRel s)\<^sup>*"
    for y
  proof -
    from that have "ChildrenOf y \<noteq> ChildrenOf x" by auto
    then show ?thesis by (simp add: sortInPlace_def getArray_setArray_other)
  qed
  moreover have "rootNodes ?s1 = rootNodes s"
    by (simp add: sortInPlace_def setArray_def)
  ultimately have s1: "?I ?s1" using sameNodes_sortInPlace [OF valid] by blast
  have step: "?I s3" if "?I s2" and "c \<in> set (getArray ?a s2)" and "?body c s2 = Some s3"
    for c s2 s3
  proof (cases "children (deref s2 c) \<noteq> []")
    case True
    with that(3) have call: "sortNodes lc fuel (ChildrenOf c) s2 = Some s3" by simp
    from that(1) have same: "sameNodes s s2" by simp
    have rel: "childRel s2 = childRel s" by (rule sameNodes_childRel [OF same])
    have c2: "closedRefs s2" by (rule sameNodes_closedRefs [OF same Suc.prems(2)])
    have "validRef ?a s2" using sameNodes_validRef [OF same] valid by simp
    from closedRefs_array [OF c2 this] that(2) have cdom: "c \<in> dom (employeeMap s2)" by auto
    then have v: "validRef (ChildrenOf c) s2" by (simp add: validRef_def)
    have edge: "(x, c) \<in> childRel s"
      using that(2) sameNodes_array_set [OF same, of ?a] Suc.prems(3)
      by (simp add: childRel_children)
    have same23: "sameNodes s2 s3" by (rule sortNodes_sameNodes [OF call c2 v])
    from Suc.IH [OF call c2 cdom] have fr: "rootNodes s3 = rootNodes s2"
      "\<And>y. (c, y) \<notin> (childRel s)\<^sup>* \<Longrightarrow> getArray (ChildrenOf y) s3 = getArray (ChildrenOf y) s2"
      unfolding rel by simp_all
    have "getArray (ChildrenOf y) s3 = getArray (ChildrenOf y) s" if "(x, y) \<notin> (childRel s)\<^sup>*"
      for y
    proof -
      from that edge have "(c, y) \<notin> (childRel s)\<^sup>*"
        by (meson converse_rtrancl_into_rtrancl)
      from fr(2) [OF this] \<open>?I s2\<close> that show ?thesis by simp
    qed
    moreover from same same23 have "sameNodes s s3" by (rule sameNodes_trans)
    ultimately show ?thesis using fr(1) that(1) by simp
  next
    case False
    with that show ?thesis by simp
  qed
  from forEachLive_invariant [where I = ?I, OF loop s1 step] show ?case by simp
qed

subsection \<open>Every array of the forest ends up in order\<close>

lemma forestArray_elems:
  assumes "forestArray s a" and "validRef a s" and "c \<in> set (getArray a s)"
  shows "inForest s c"
proof (cases a)
  case RootNodes
  with assms(3) show ?thesis by (simp add: getArray_def inForest_root)
next
  case (ChildrenOf x)
  with assms have "inForest s x" "(x, c) \<in> childRel s"
    by (simp_all add: forestArray_def validRef_def childRel_children)
  then show ?thesis by (rule inForest_child)
qed

lemma leaf_below:
  assumes "c \<in> dom (employeeMap s)" and "children (deref s c) = []"
    and "(c, y) \<in> (childRel s)\<^sup>*"
  shows "y = c"
  using assms(3)
proof (cases rule: converse_rtranclE)
  case base
  then show ?thesis by simp
next
  case (step z)
  with assms(1,2) show ?thesis by (simp add: childRel_children getArray_def)
qed

lemma sortNodes_sorts:
  assumes "sortNodes lc fuel a s = Some s'" and "consistentCompare lc" and "closedRefs s"
    and "singleParent s" and "validRef a s" and "forestArray s a"
  shows "sortedArray lc s' a \<and>
    (\<forall>c y. c \<in> set (getArray a s) \<and> (c, y) \<in> (childRel s)\<^sup>* \<longrightarrow>
       sortedArray lc s' (ChildrenOf y))"
  using assms(1,3,4,5,6)
proof (induction fuel arbitrary: a s s')
  case 0
  then show ?case by simp
next
  case (Suc fuel)
  let ?s1 = "sortInPlace lc a s"
  let ?L = "getArray a ?s1"
  let ?body = "\<lambda>node s2. if children (deref s2 node) \<noteq> []
          then sortNodes lc fuel (ChildrenOf node) s2 else Some s2"
  let ?I = "\<lambda>s2. sameNodes s s2 \<and> getArray a s2 = ?L"
  let ?P = "\<lambda>c s3. \<forall>y. (c, y) \<in> (childRel s)\<^sup>* \<longrightarrow> sortedArray lc s3 (ChildrenOf y)"
  note closed = Suc.prems(2) and single = Suc.prems(3) and valid = Suc.prems(4)
    and forest = Suc.prems(5)
  from Suc.prems(1) have loop: "forEachLive (getArray a) ?body ?s1 = Some s'" by simp
  have same1: "sameNodes s ?s1" by (rule sameNodes_sortInPlace [OF valid])
  have setL: "set ?L = set (getArray a s)" by (rule sameNodes_array_set [OF same1])
  have facts: "closedRefs s2 \<and> singleParent s2 \<and> childRel s2 = childRel s \<and>
      c \<in> dom (employeeMap s2) \<and> inForest s2 c \<and> inForest s c"
    if "sameNodes s s2" and "c \<in> set ?L" for s2 c
  proof -
    have c2: "closedRefs s2" by (rule sameNodes_closedRefs [OF that(1) closed])
    have "inForest s c" using forestArray_elems [OF forest valid] that(2) setL by simp
    then have "inForest s2 c" by (simp add: sameNodes_inForest [OF that(1)])
    with c2 show ?thesis
      using sameNodes_singleParent [OF that(1) single] sameNodes_childRel [OF that(1)]
        inForest_dom [OF c2] \<open>inForest s c\<close> by blast
  qed
  have step: "?I s3 \<and> ?P c s3" if "?I s2" and "c \<in> set ?L" and "?body c s2 = Some s3"
    for c s2 s3
  proof -
    from that(1) have same: "sameNodes s s2" and arr: "getArray a s2 = ?L" by simp_all
    note f = facts [OF same that(2)]
    show ?thesis
    proof (cases "children (deref s2 c) \<noteq> []")
      case True
      with that(3) have call: "sortNodes lc fuel (ChildrenOf c) s2 = Some s3" by simp
      from f have v: "validRef (ChildrenOf c) s2" and fa: "forestArray s2 (ChildrenOf c)"
        by (simp_all add: validRef_def forestArray_def)
      have same23: "sameNodes s2 s3" using call f v by (meson sortNodes_sameNodes)
      have fr: "rootNodes s3 = rootNodes s2"
        "\<And>y. (c, y) \<notin> (childRel s)\<^sup>* \<Longrightarrow>
           getArray (ChildrenOf y) s3 = getArray (ChildrenOf y) s2"
        using sortNodes_frame [OF call] f by simp_all
      have "getArray a s3 = getArray a s2"
      proof (cases a)
        case RootNodes
        with fr(1) show ?thesis by (simp add: getArray_def)
      next
        case (ChildrenOf x)
        with forest valid have x: "inForest s x" "x \<in> dom (employeeMap s)"
          by (simp_all add: forestArray_def validRef_def)
        with that(2) setL ChildrenOf have edge: "(x, c) \<in> childRel s"
          by (simp add: childRel_children)
        have "(c, x) \<notin> (childRel s)\<^sup>*"
        proof
          assume "(c, x) \<in> (childRel s)\<^sup>*"
          with edge have "(x, x) \<in> (childRel s)\<^sup>+" by (meson rtrancl_into_trancl2)
          with inForest_acyclic [OF single x(1)] show False by simp
        qed
        from fr(2) [OF this] ChildrenOf show ?thesis by simp
      qed
      moreover from same same23 have same3: "sameNodes s s3" by (rule sameNodes_trans)
      moreover have "?P c s3"
      proof (intro allI impI)
        fix y
        assume y: "(c, y) \<in> (childRel s)\<^sup>*"
        from Suc.IH [OF call _ _ v fa] f
        have ih: "sortedArray lc s3 (ChildrenOf c)"
          "\<And>d z. d \<in> set (getArray (ChildrenOf c) s2) \<Longrightarrow> (d, z) \<in> (childRel s)\<^sup>* \<Longrightarrow>
             sortedArray lc s3 (ChildrenOf z)"
          by simp_all
        from y show "sortedArray lc s3 (ChildrenOf y)"
        proof (cases rule: converse_rtranclE)
          case base
          with ih(1) show ?thesis by simp
        next
          case (step d)
          from step(1) f have "d \<in> set (getArray (ChildrenOf c) s2)"
            by (metis childRel_children)
          from ih(2) [OF this step(2)] show ?thesis .
        qed
      qed
      ultimately show ?thesis using arr by simp
    next
      case False
      with that(3) have eq: "s3 = s2" by simp
      have "?P c s2"
      proof (intro allI impI)
        fix y
        assume "(c, y) \<in> (childRel s)\<^sup>*"
        with f have "(c, y) \<in> (childRel s2)\<^sup>*" by simp
        from leaf_below [OF _ _ this] f False have "y = c" by simp
        with False show "sortedArray lc s2 (ChildrenOf y)"
          by (simp add: sortedArray_def getArray_def)
      qed
      with that(1) eq show ?thesis by simp
    qed
  qed
  have stable: "?P y s3" if "?I s2" and "c \<in> set ?L" and "?P y s2" and "?body c s2 = Some s3"
    for c y s2 s3
  proof (cases "children (deref s2 c) \<noteq> []")
    case True
    with that(4) have call: "sortNodes lc fuel (ChildrenOf c) s2 = Some s3" by simp
    from that(1) have same: "sameNodes s s2" by simp
    note f = facts [OF same that(2)]
    from f have v: "validRef (ChildrenOf c) s2" by (simp add: validRef_def)
    have same23: "sameNodes s2 s3" using call f v by (meson sortNodes_sameNodes)
    have "keepsOrder lc s2 s3" using call assms(2) f v by (meson sortNodes_keepsOrder)
    with that(3) same23 show ?thesis by (meson keepsOrder_sorted)
  next
    case False
    with that show ?thesis by simp
  qed
  have "?I s' \<and> (\<forall>c\<in>set ?L. ?P c s')"
    by (rule forEachLive_visits [where I = ?I and P = ?P, OF loop _ _ _ step stable])
      (use same1 in simp_all)
  then have end1: "sameNodes s s'" "getArray a s' = ?L" and end2: "\<And>c. c \<in> set ?L \<Longrightarrow> ?P c s'"
    by simp_all
  have "sorted_wrt (inOrder lc s) ?L"
    using sortInPlace_sorted [OF assms(2) valid]
    by (simp add: sortedArray_def sameNodes_inOrder [OF same1])
  then have "sortedArray lc s' a"
    by (simp add: sortedArray_def end1(2) sameNodes_inOrder [OF end1(1)])
  with end2 setL show ?case by blast
qed

subsection \<open>The result of a build\<close>

lemma buildOrgChart_shape:
  assumes "distinct (map id' (filteredEmployees emps sel))"
    and "buildOrgChart lc fuel emps sel = Some s"
  shows "closedRefs s" and "singleParent s" and "finite (childRel s)" and "distinctArrays s"
    and "childRel s = set (managerEdges (filteredEmployees emps sel))"
    and "dom (employeeMap s) = id' ` set (filteredEmployees emps sel)"
    and "set (rootNodes s) = set (rootNodes (placeAll (filteredEmployees emps sel)))"
proof -
  let ?s0 = "placeAll (filteredEmployees emps sel)"
  have same: "sameNodes ?s0 s" by (rule buildOrgChart_sameNodes [OF assms(2)])
  show "closedRefs s" by (rule sameNodes_closedRefs [OF same placeAll_closedRefs])
  show "singleParent s"
    by (rule sameNodes_singleParent [OF same placeAll_singleParent [OF assms(1)]])
  show "distinctArrays s"
    by (rule sameNodes_distinctArrays [OF same placeAll_distinctArrays [OF assms(1)]])
  show "childRel s = set (managerEdges (filteredEmployees emps sel))"
    using sameNodes_childRel [OF same] by (simp add: childRel_placeAll)
  then show "finite (childRel s)" by simp
  show "dom (employeeMap s) = id' ` set (filteredEmployees emps sel)"
    using sameNodes_dom [OF same] by (simp add: placeAll_dom)
  show "set (rootNodes s) = set (rootNodes ?s0)"
    using sameNodes_array_set [OF same, of RootNodes] by (simp add: getArray_def)
qed

lemma build_roots:
  assumes "buildOrgChart lc fuel emps sel = Some s"
  shows "set (rootNodes s) =
    id' ` {emp \<in> set (filteredEmployees emps sel).
            resolvedManager (makeEmployeeMap (filteredEmployees emps sel)) emp = None}"
  using sameNodes_array_set [OF buildOrgChart_sameNodes [OF assms], of RootNodes]
  by (auto simp: getArray_def placeAll_roots)

lemma build_children:
  assumes "buildOrgChart lc fuel emps sel = Some s"
    and "k \<in> id' ` set (filteredEmployees emps sel)"
  shows "set (getArray (ChildrenOf k) s) =
    id' ` {emp \<in> set (filteredEmployees emps sel).
            resolvedManager (makeEmployeeMap (filteredEmployees emps sel)) emp = Some k}"
  using sameNodes_array_set [OF buildOrgChart_sameNodes [OF assms(1)], of "ChildrenOf k"]
    placeAll_children [OF assms(2)]
  by auto

text \<open>Without a cycle among the manager references, every node is in the forest.\<close>

lemma acyclic_all_inForest:
  assumes "closedRefs s" and "finite (childRel s)" and "acyclic (childRel s)"
    and parent: "\<And>x. x \<in> dom (employeeMap s) \<Longrightarrow>
       x \<in> set (rootNodes s) \<or> (\<exists>p. p \<in> dom (employeeMap s) \<and> (p, x) \<in> childRel s)"
    and "x \<in> dom (employeeMap s)"
  shows "inForest s x"
proof -
  have "wf (childRel s)" by (rule finite_acyclic_wf [OF assms(2,3)])
  then show ?thesis using assms(5)
  proof (induction x rule: wf_induct_rule)
    case (less x)
    from parent [OF less.prems] show ?case
    proof
      assume "x \<in> set (rootNodes s)"
      then show ?thesis by (rule inForest_root)
    next
      assume "\<exists>p. p \<in> dom (employeeMap s) \<and> (p, x) \<in> childRel s"
      then obtain p where p: "p \<in> dom (employeeMap s)" "(p, x) \<in> childRel s" by blast
      from less.IH [OF p(2) p(1)] p(2) show ?thesis by (rule inForest_child)
    qed
  qed
qed

lemma build_attached:
  assumes "buildOrgChart lc fuel emps sel = Some s"
    and "x \<in> id' ` set (filteredEmployees emps sel)"
  shows "x \<in> set (rootNodes s) \<or>
    (\<exists>p. p \<in> id' ` set (filteredEmployees emps sel) \<and> (p, x) \<in> childRel s)"
proof -
  let ?fe = "filteredEmployees emps sel"
  from assms(2) obtain emp where emp: "emp \<in> set ?fe" "x = id' emp" by blast
  show ?thesis
  proof (cases "resolvedManager (makeEmployeeMap ?fe) emp")
    case None
    with emp build_roots [OF assms(1)] show ?thesis by blast
  next
    case (Some p)
    then have p: "p \<in> id' ` set ?fe" by (simp add: resolvedManager_Some dom_makeEmployeeMap)
    from Some emp have "(p, x) \<in> set (managerEdges ?fe)" by (auto simp: set_managerEdges)
    then have "(p, x) \<in> childRel s"
      using sameNodes_childRel [OF buildOrgChart_sameNodes [OF assms(1)]]
      by (simp add: childRel_placeAll)
    with p show ?thesis by blast
  qed
qed

subsection \<open>The sample comparison\<close>

lemma consistent_codeUnitCompare: "consistentCompare codeUnitCompare"
  unfolding consistentCompare_def codeUnitCompare_def
  by (auto split: if_splits)

subsection \<open>Attachments counted\<close>

lemma sum_list_indicator:
  assumes "distinct ks"
  shows "sum_list (map (\<lambda>k. if k0 = k then 1 else 0) ks) = (if k0 \<in> set ks then 1 else (0::nat))"
  using assms by (induction ks) auto

lemma count_by_key:
  assumes "distinct ks" and "\<And>e k. e \<in> set xs \<Longrightarrow> f e = Some k \<Longrightarrow> k \<in> set ks"
  shows "sum_list (map (\<lambda>k. length (filter (\<lambda>e. f e = Some k) xs)) ks) =
    length (filter (\<lambda>e. f e \<noteq> None) xs)"
  using assms(2)
proof (induction xs)
  case Nil
  then show ?case by simp
next
  case (Cons x xs)
  have "sum_list (map (\<lambda>k. length (filter (\<lambda>e. f e = Some k) (x # xs))) ks) =
      sum_list (map (\<lambda>k. (if f x = Some k then 1 else 0) +
        length (filter (\<lambda>e. f e = Some k) xs)) ks)"
    by (rule arg_cong [where f = sum_list]) auto
  also have "\<dots> = sum_list (map (\<lambda>k. if f x = Some k then 1 else 0) ks) +
      sum_list (map (\<lambda>k. length (filter (\<lambda>e. f e = Some k) xs)) ks)"
    by (simp add: sum_list_addf)
  also have "sum_list (map (\<lambda>k. length (filter (\<lambda>e. f e = Some k) xs)) ks) =
      length (filter (\<lambda>e. f e \<noteq> None) xs)"
    by (rule Cons.IH) (use Cons.prems in auto)
  also have "sum_list (map (\<lambda>k. if f x = Some k then 1 else 0) ks) =
      (if f x \<noteq> None then 1 else (0::nat))"
  proof (cases "f x")
    case None
    then show ?thesis by simp
  next
    case (Some k0)
    with Cons.prems [of x k0] have "k0 \<in> set ks" by simp
    with Some sum_list_indicator [OF assms(1), of k0] show ?thesis by simp
  qed
  finally show ?case by simp
qed

lemma placeAll_attachments:
  "length (rootNodes (placeAll emps)) +
     sum_list (map (\<lambda>k. length (getArray (ChildrenOf k) (placeAll emps)))
       (remdups (map id' emps))) = length emps"
proof -
  let ?f = "resolvedManager (makeEmployeeMap emps)"
  have "map (\<lambda>k. length (getArray (ChildrenOf k) (placeAll emps))) (remdups (map id' emps)) =
      map (\<lambda>k. length (filter (\<lambda>e. ?f e = Some k) emps)) (remdups (map id' emps))"
    by (rule map_cong) (simp_all add: placeAll_children)
  then have "sum_list (map (\<lambda>k. length (getArray (ChildrenOf k) (placeAll emps)))
       (remdups (map id' emps))) =
     sum_list (map (\<lambda>k. length (filter (\<lambda>e. ?f e = Some k) emps)) (remdups (map id' emps)))"
    by (rule arg_cong)
  also have "\<dots> = length (filter (\<lambda>e. ?f e \<noteq> None) emps)"
    by (rule count_by_key) (auto simp: resolvedManager_Some dom_makeEmployeeMap)
  finally have kids: "sum_list (map (\<lambda>k. length (getArray (ChildrenOf k) (placeAll emps)))
       (remdups (map id' emps))) = length (filter (\<lambda>e. ?f e \<noteq> None) emps)" .
  have "length (filter (\<lambda>e. ?f e = None) emps) +
      length (filter (\<lambda>e. ?f e \<noteq> None) emps) = length emps"
    using sum_length_filter_compl [of "\<lambda>e. ?f e = None" emps] by simp
  then show ?thesis unfolding kids by (simp add: placeAll_roots)
qed

lemma truncate_newNode: "Employee.truncate (newNode emp) = emp"
  by (simp add: newNode_def Employee.truncate_def Employee.extend_def)

section \<open>Evaluation on concrete inputs\<close>

lemmas build_eval =
  buildOrgChart_def filteredEmployees_def placeAll_def makeEmployeeMap_def newNode_def
  placeEmployee_def resolvedManager_def Employee.extend_def OrgNode.fields_def
  sortInPlace_def sortBy_def getArray_def setArray_def deref_def compareNodes_def
  roleOrder_def forEachLive_def codeUnitCompare_def Let_def eval_nat_numeral

lemmas walk_eval = builtForestIds_def forestIds_def

lemmas state_eval =
  rebuild_def setSelectedDepartment_def fetchEmployees_def initialState_def
  uniqueValues_def stats_def toggleNode_def

section \<open>The department filter\<close>

text \<open>
  C7. With the sentinel \<open>''all''\<close> the filter returns the snapshot unchanged; with any
  other selection it returns the records whose department equals the selection, in
  the order of the input, and this is a subsequence of the snapshot. The filter is a
  function of its two arguments alone.
\<close>

theorem filteredEmployees_contract:
  "filteredEmployees emps ''all'' = emps \<and>
   filteredEmployees emps sel =
     (if sel = ''all'' then emps else filter (\<lambda>emp. department emp = sel) emps) \<and>
   subseq (filteredEmployees emps sel) emps"
  by (simp add: filteredEmployees_def)

theorem filteredEmployees_contract_witness:
  "map id' (filteredEmployees sampleStaff ''Eng'') = [''a'', ''d'', ''b''] \<and>
   subseq (filteredEmployees sampleStaff ''Eng'') sampleStaff"
  using filteredEmployees_contract [of sampleStaff "''Eng''"]
  by (simp add: sampleStaff_def)

section \<open>The summary counts\<close>

lemma length_uniqueValues: "length (uniqueValues xs) = card (set xs)"
  by (simp add: uniqueValues_def length_remdups_card_conv)

lemma stats_rebuild:
  assumes "rebuild lc fuel st = Some st'"
  shows "stats st' = stats st"
proof (cases "length (employees st) > 0")
  case True
  with assms obtain forest where "st' = st\<lparr>orgChart := forest\<rparr>"
    by (auto simp: rebuild_def)
  then show ?thesis by (simp add: stats_def)
next
  case False
  with assms show ?thesis by (simp add: rebuild_def)
qed

lemma stats_fetchEmployees:
  "stats (setSelectedDepartment d (fetchEmployees snapshot st)) =
     \<lparr>totalEmployees = length snapshot,
      admins = length (filter (\<lambda>emp. role emp = admin) snapshot),
      managers = length (filter (\<lambda>emp. role emp = manager) snapshot),
      employeesCount = length (filter (\<lambda>emp. role emp = employee) snapshot),
      departmentsCount = card (department ` set snapshot)\<rparr>"
  by (simp add: stats_def setSelectedDepartment_def fetchEmployees_def length_uniqueValues)

text \<open>
  C9. The summary counts are taken from the unfiltered snapshot: two rebuilds over the
  same snapshot that differ only in the selected department show the same counts, and
  these are the total, the per-role counts and the number of distinct departments of
  the snapshot itself.
\<close>

theorem stats_filter_independent:
  assumes "rebuild lc fuel1 (setSelectedDepartment d1 (fetchEmployees snapshot st)) = Some r1"
    and "rebuild lc fuel2 (setSelectedDepartment d2 (fetchEmployees snapshot st)) = Some r2"
  shows "stats r1 = stats r2 \<and>
         stats r1 =
           \<lparr>totalEmployees = length snapshot,
            admins = length (filter (\<lambda>emp. role emp = admin) snapshot),
            managers = length (filter (\<lambda>emp. role emp = manager) snapshot),
            employeesCount = length (filter (\<lambda>emp. role emp = employee) snapshot),
            departmentsCount = card (department ` set snapshot)\<rparr>"
  using stats_rebuild [OF assms(1)] stats_rebuild [OF assms(2)]
  by (simp add: stats_fetchEmployees)

theorem stats_filter_independent_witness:
  "rebuild codeUnitCompare 4
     (setSelectedDepartment ''all'' (fetchEmployees sampleStaff initialState)) \<noteq> None \<and>
   rebuild codeUnitCompare 4
     (setSelectedDepartment ''Sales'' (fetchEmployees sampleStaff initialState)) \<noteq> None \<and>
   stats (the (rebuild codeUnitCompare 4
     (setSelectedDepartment ''all'' (fetchEmployees sampleStaff initialState)))) =
   stats (the (rebuild codeUnitCompare 4
     (setSelectedDepartment ''Sales'' (fetchEmployees sampleStaff initialState)))) \<and>
   stats (the (rebuild codeUnitCompare 4
     (setSelectedDepartment ''all'' (fetchEmployees sampleStaff initialState)))) =
     \<lparr>totalEmployees = 4, admins = 1, managers = 1, employeesCount = 2,
      departmentsCount = 2\<rparr>"
proof -
  let ?A = "rebuild codeUnitCompare 4
    (setSelectedDepartment ''all'' (fetchEmployees sampleStaff initialState))"
  let ?B = "rebuild codeUnitCompare 4
    (setSelectedDepartment ''Sales'' (fetchEmployees sampleStaff initialState))"
  have a: "?A \<noteq> None" by (simp add: state_eval build_eval sampleStaff_def)
  have b: "?B \<noteq> None" by (simp add: state_eval build_eval sampleStaff_def)
  have c: "card (department ` set sampleStaff) = 2" "length sampleStaff = 4"
    "length (filter (\<lambda>emp. role emp = admin) sampleStaff) = 1"
    "length (filter (\<lambda>emp. role emp = manager) sampleStaff) = 1"
    "length (filter (\<lambda>emp. role emp = employee) sampleStaff) = 2"
    by (simp_all add: sampleStaff_def)
  from a b obtain r1 r2 where r: "?A = Some r1" "?B = Some r2" by auto
  have "stats r1 = stats r2" and "stats r1 =
     \<lparr>totalEmployees = 4, admins = 1, managers = 1, employeesCount = 2,
      departmentsCount = 2\<rparr>"
    using stats_filter_independent [OF r, unfolded c] by blast+
  then have "stats (the ?A) = stats (the ?B)" and "stats (the ?A) =
     \<lparr>totalEmployees = 4, admins = 1, managers = 1, employeesCount = 2,
      departmentsCount = 2\<rparr>"
    by (simp_all only: r option.sel)
  with a b show ?thesis by blast
qed
section \<open>Every id once\<close>

text \<open>
  C1 (as amended). For a filtered list with unique ids the build returns, and the walk
  over its forest lists, each exactly once, the ids that are reached along manager
  references from a record without a resolvable manager, and no other id. So when
  the manager references form no cycle, every id of the filtered list is listed
  exactly once, with no id missing; an id on a cycle is not listed.
\<close>

theorem forest_lists_every_id_once:
  assumes "distinct (map id' (filteredEmployees emps sel))"
  shows "\<exists>fuel s walkFuel ns.
           buildOrgChart lc fuel emps sel = Some s \<and> forestIds s walkFuel = Some ns \<and>
           distinct ns \<and>
           set ns =
             {x. \<exists>emp. emp \<in> set (filteredEmployees emps sel) \<and>
                   resolvedManager (makeEmployeeMap (filteredEmployees emps sel)) emp = None \<and>
                   (id' emp, x) \<in> (set (managerEdges (filteredEmployees emps sel)))\<^sup>*} \<and>
           (acyclic (set (managerEdges (filteredEmployees emps sel))) \<longrightarrow>
              set ns = set (map id' (filteredEmployees emps sel))) \<and>
           (\<forall>x. (x, x) \<in> (set (managerEdges (filteredEmployees emps sel)))\<^sup>+ \<longrightarrow>
              x \<notin> set ns)"
proof -
  let ?fe = "filteredEmployees emps sel"
  from buildOrgChart_returns [OF assms(1)] obtain fuel s
    where build: "buildOrgChart lc fuel emps sel = Some s" by blast
  note shape = buildOrgChart_shape [OF assms(1) build]
  from forestIds_returns [OF shape(1-4)] obtain walkFuel ns
    where walk: "forestIds s walkFuel = Some ns" "distinct ns" "set ns = {y. inForest s y}"
    by blast
  have reach: "set ns =
      {x. \<exists>emp. emp \<in> set ?fe \<and> resolvedManager (makeEmployeeMap ?fe) emp = None \<and>
            (id' emp, x) \<in> (set (managerEdges ?fe))\<^sup>*}"
    unfolding walk(3) inForest_def build_roots [OF build] shape(5) by blast
  have all: "set ns = set (map id' ?fe)" if acyc: "acyclic (set (managerEdges ?fe))"
  proof -
    have "inForest s x" if "x \<in> id' ` set ?fe" for x
    proof (rule acyclic_all_inForest [OF shape(1,3)])
      show "acyclic (childRel s)" using acyc shape(5) by simp
      show "x \<in> dom (employeeMap s)" using that shape(6) by simp
      show "y \<in> set (rootNodes s) \<or> (\<exists>p. p \<in> dom (employeeMap s) \<and> (p, y) \<in> childRel s)"
        if "y \<in> dom (employeeMap s)" for y
        using build_attached [OF build, of y] that shape(6) by simp
    qed
    moreover have "x \<in> id' ` set ?fe" if "inForest s x" for x
      using inForest_dom [OF shape(1) that] shape(6) by simp
    ultimately show ?thesis using walk(3) by auto
  qed
  have cyc: "x \<notin> set ns" if "(x, x) \<in> (set (managerEdges ?fe))\<^sup>+" for x
    using that inForest_acyclic [OF shape(2), of x] walk(3) shape(5) by auto
  from build walk(1,2) reach all cyc show ?thesis by blast
qed

lemma acyclic_by_rank:
  assumes "\<And>p c. (p, c) \<in> r \<Longrightarrow> f p < (f c :: nat)"
  shows "acyclic r"
proof -
  have "r \<subseteq> inv_image less_than f" using assms by auto
  moreover have "acyclic (inv_image less_than f)"
    by (rule wf_acyclic) (rule wf_inv_image [OF wf_less_than])
  ultimately show ?thesis by (rule acyclic_subset [rotated])
qed

theorem forest_lists_every_id_once_witness:
  "distinct (map id' (filteredEmployees sampleStaff ''all'')) \<and>
   acyclic (set (managerEdges (filteredEmployees sampleStaff ''all''))) \<and>
   (\<exists>fuel s walkFuel ns.
      buildOrgChart codeUnitCompare fuel sampleStaff ''all'' = Some s \<and>
      forestIds s walkFuel = Some ns \<and> distinct ns \<and>
      set ns = set (map id' (filteredEmployees sampleStaff ''all''))) \<and>
   builtForestIds codeUnitCompare 3 sampleStaff ''all'' 3 = Some [''a'', ''b'', ''c'', ''d'']"
proof -
  have d: "distinct (map id' (filteredEmployees sampleStaff ''all''))"
    by (simp add: sampleStaff_def filteredEmployees_def)
  have edges: "managerEdges (filteredEmployees sampleStaff ''all'') =
      [(''a'', ''d''), (''a'', ''b''), (''b'', ''c'')]"
    by (simp add: sampleStaff_def managerEdges_def build_eval)
  have a: "acyclic (set (managerEdges (filteredEmployees sampleStaff ''all'')))"
    unfolding edges
    by (rule acyclic_by_rank [where f = "\<lambda>i. if i = ''a'' then 0 else if i = ''c'' then 2 else 1"])
      auto
  have e: "builtForestIds codeUnitCompare 3 sampleStaff ''all'' 3 =
      Some [''a'', ''b'', ''c'', ''d'']"
    by (simp add: walk_eval build_eval sampleStaff_def)
  from forest_lists_every_id_once [OF d, of codeUnitCompare] obtain fuel s walkFuel ns
    where r: "buildOrgChart codeUnitCompare fuel sampleStaff ''all'' = Some s"
      "forestIds s walkFuel = Some ns" "distinct ns"
      "acyclic (set (managerEdges (filteredEmployees sampleStaff ''all''))) \<longrightarrow>
         set ns = set (map id' (filteredEmployees sampleStaff ''all''))"
    by (elim exE conjE)
  from r(4) a have "set ns = set (map id' (filteredEmployees sampleStaff ''all''))" by (rule mp)
  with r(1-3) have "\<exists>fuel s walkFuel ns.
      buildOrgChart codeUnitCompare fuel sampleStaff ''all'' = Some s \<and>
      forestIds s walkFuel = Some ns \<and> distinct ns \<and>
      set ns = set (map id' (filteredEmployees sampleStaff ''all''))" by blast
  with d a e show ?thesis by (intro conjI)
qed

text \<open>
  C1 (as stated) fails on a record that names itself as its manager: its id is in the
  filtered list, and the forest of the build is empty.
\<close>

theorem forest_omits_self_managed:
  "distinct (map id' (filteredEmployees selfManaged ''all'')) \<and>
   map id' (filteredEmployees selfManaged ''all'') = [''x''] \<and>
   builtForestIds codeUnitCompare 1 selfManaged ''all'' 1 = Some []"
  by (simp add: walk_eval build_eval selfManaged_def)

section \<open>Records on a manager cycle\<close>

text \<open>
  C2 (as amended). For a filtered list with unique ids, a record whose \<open>managerId\<close> is
  non-empty and is the id of a record of the list, its own id included, is not a root:
  its node is in the \<open>children\<close> of that manager (of itself when it names itself) and
  not in the top-level list. A record whose manager chain revisits itself is no node
  of the forest at all.
\<close>

theorem resolved_manager_keeps_edge:
  assumes "distinct (map id' (filteredEmployees emps sel))"
    and "emp \<in> set (filteredEmployees emps sel)"
    and "managerId emp = Some m" and "m \<noteq> []"
    and "m \<in> id' ` set (filteredEmployees emps sel)"
  shows "\<exists>fuel s.
           buildOrgChart lc fuel emps sel = Some s \<and>
           id' emp \<notin> set (rootNodes s) \<and>
           id' emp \<in> set (getArray (ChildrenOf m) s) \<and>
           ((id' emp, id' emp) \<in> (set (managerEdges (filteredEmployees emps sel)))\<^sup>+ \<longrightarrow>
              \<not> inForest s (id' emp) \<and>
              (\<forall>walkFuel ns. forestIds s walkFuel = Some ns \<longrightarrow> id' emp \<notin> set ns))"
proof -
  let ?fe = "filteredEmployees emps sel"
  from buildOrgChart_returns [OF assms(1)] obtain fuel s
    where build: "buildOrgChart lc fuel emps sel = Some s" by blast
  note shape = buildOrgChart_shape [OF assms(1) build]
  have res: "resolvedManager (makeEmployeeMap ?fe) emp = Some m"
    using assms(3,4,5) by (simp add: resolvedManager_Some dom_makeEmployeeMap)
  with assms(2) have child: "id' emp \<in> set (getArray (ChildrenOf m) s)"
    using build_children [OF build assms(5)] by blast
  then have edge: "(m, id' emp) \<in> childRel s"
    using assms(5) shape(6) by (simp add: childRel_children)
  have notroot: "id' emp \<notin> set (rootNodes s)"
    using edge shape(2) unfolding singleParent_def by blast
  have cyc: "\<not> inForest s (id' emp) \<and>
      (\<forall>walkFuel ns. forestIds s walkFuel = Some ns \<longrightarrow> id' emp \<notin> set ns)"
    if "(id' emp, id' emp) \<in> (set (managerEdges ?fe))\<^sup>+"
  proof -
    from that shape(5) have "(id' emp, id' emp) \<in> (childRel s)\<^sup>+" by simp
    with inForest_acyclic [OF shape(2)] have "\<not> inForest s (id' emp)" by blast
    then show ?thesis using forestIds_set [OF _ shape(1)] by blast
  qed
  from build notroot child cyc show ?thesis by blast
qed

theorem resolved_manager_keeps_edge_witness:
  "distinct (map id' (filteredEmployees selfManaged ''all'')) \<and>
   hd selfManaged \<in> set (filteredEmployees selfManaged ''all'') \<and>
   managerId (hd selfManaged) = Some ''x'' \<and>
   ''x'' \<in> id' ` set (filteredEmployees selfManaged ''all'') \<and>
   (id' (hd selfManaged), id' (hd selfManaged)) \<in>
     (set (managerEdges (filteredEmployees selfManaged ''all'')))\<^sup>+ \<and>
   (\<exists>fuel s.
      buildOrgChart codeUnitCompare fuel selfManaged ''all'' = Some s \<and>
      ''x'' \<notin> set (rootNodes s) \<and> ''x'' \<in> set (getArray (ChildrenOf ''x'') s) \<and>
      \<not> inForest s ''x'')"
proof -
  let ?e = "hd selfManaged"
  have h: "distinct (map id' (filteredEmployees selfManaged ''all''))"
    "?e \<in> set (filteredEmployees selfManaged ''all'')"
    "managerId ?e = Some ''x''" "''x'' \<noteq> []"
    "''x'' \<in> id' ` set (filteredEmployees selfManaged ''all'')" "id' ?e = ''x''"
    by (simp_all add: selfManaged_def filteredEmployees_def)
  have "managerEdges (filteredEmployees selfManaged ''all'') = [(''x'', ''x'')]"
    by (simp add: selfManaged_def managerEdges_def build_eval)
  then have c: "(id' ?e, id' ?e) \<in> (set (managerEdges (filteredEmployees selfManaged ''all'')))\<^sup>+"
    using h(6) by simp
  from resolved_manager_keeps_edge [OF h(1-5), of codeUnitCompare] c h show ?thesis
    by (simp only:) blast
qed

text \<open>
  C2 (as stated) fails on a record that names itself as its manager: the top-level
  list of the build is empty and the record's node is in its own \<open>children\<close>.
\<close>

theorem self_managed_is_no_root:
  "map_option rootNodes (buildOrgChart codeUnitCompare 1 selfManaged ''all'') = Some [] \<and>
   map_option (getArray (ChildrenOf ''x''))
     (buildOrgChart codeUnitCompare 1 selfManaged ''all'') = Some [''x'']"
  by (simp add: build_eval selfManaged_def)

section \<open>Termination and the shape of the forest\<close>

text \<open>
  C3. For a filtered list with unique ids, with or without a cycle among the manager
  references, the build returns (the recursive sort included) and so does the walk
  over the returned forest; every node of the forest has at most one parent and is
  not below itself, so its parent chain leads to a root without a repetition.
\<close>

theorem build_terminates_forest_acyclic:
  assumes "distinct (map id' (filteredEmployees emps sel))"
  shows "\<exists>fuel s.
           buildOrgChart lc fuel emps sel = Some s \<and>
           (\<exists>walkFuel ns. forestIds s walkFuel = Some ns) \<and>
           (\<forall>x. inForest s x \<longrightarrow>
              (x, x) \<notin> (childRel s)\<^sup>+ \<and>
              (\<exists>r. r \<in> set (rootNodes s) \<and> (r, x) \<in> (childRel s)\<^sup>*) \<and>
              (\<forall>p q. (p, x) \<in> childRel s \<and> (q, x) \<in> childRel s \<longrightarrow> p = q))"
proof -
  from buildOrgChart_returns [OF assms] obtain fuel s
    where build: "buildOrgChart lc fuel emps sel = Some s" by blast
  note shape = buildOrgChart_shape [OF assms build]
  from forestIds_returns [OF shape(1-4)] have "\<exists>walkFuel ns. forestIds s walkFuel = Some ns"
    by blast
  moreover have "(x, x) \<notin> (childRel s)\<^sup>+" if "inForest s x" for x
    by (rule inForest_acyclic [OF shape(2) that])
  moreover have "\<exists>r. r \<in> set (rootNodes s) \<and> (r, x) \<in> (childRel s)\<^sup>*" if "inForest s x" for x
    using that unfolding inForest_def .
  moreover have "p = q" if "(p, x) \<in> childRel s \<and> (q, x) \<in> childRel s" for p q x
    using that shape(2) unfolding singleParent_def by blast
  ultimately show ?thesis using build by blast
qed

theorem build_terminates_forest_acyclic_witness:
  "distinct (map id' (filteredEmployees cyclicStaff ''all'')) \<and>
   (\<exists>fuel s.
      buildOrgChart codeUnitCompare fuel cyclicStaff ''all'' = Some s \<and>
      (\<exists>walkFuel ns. forestIds s walkFuel = Some ns)) \<and>
   map_option rootNodes (buildOrgChart codeUnitCompare 1 cyclicStaff ''all'') = Some [''a''] \<and>
   builtForestIds codeUnitCompare 1 cyclicStaff ''all'' 1 = Some [''a'']"
proof -
  have d: "distinct (map id' (filteredEmployees cyclicStaff ''all''))"
    by (simp add: cyclicStaff_def filteredEmployees_def)
  have e: "map_option rootNodes (buildOrgChart codeUnitCompare 1 cyclicStaff ''all'') =
      Some [''a'']"
    "builtForestIds codeUnitCompare 1 cyclicStaff ''all'' 1 = Some [''a'']"
    by (simp_all add: walk_eval build_eval cyclicStaff_def)
  from build_terminates_forest_acyclic [OF d, of codeUnitCompare] d e show ?thesis by blast
qed

section \<open>One node per record, attached once\<close>

text \<open>
  C10. For a filtered list with unique ids the build returns, and in its result every
  record has one node, which holds the record's attributes; no array holds a node
  twice; the node of a record is either in the top-level list and in no \<open>children\<close>
  array, or in the \<open>children\<close> of exactly one node and not in the top-level list; and
  the walk over the forest lists ids of the filtered list only, none of them twice.
\<close>

theorem every_node_attached_once:
  assumes "distinct (map id' (filteredEmployees emps sel))"
  shows "\<exists>fuel s.
           buildOrgChart lc fuel emps sel = Some s \<and>
           dom (employeeMap s) = id' ` set (filteredEmployees emps sel) \<and>
           distinct (rootNodes s) \<and>
           (\<forall>emp\<in>set (filteredEmployees emps sel).
              map_option Employee.truncate (employeeMap s (id' emp)) = Some emp \<and>
              distinct (getArray (ChildrenOf (id' emp)) s) \<and>
              ((id' emp \<in> set (rootNodes s) \<and> (\<forall>p. (p, id' emp) \<notin> childRel s)) \<or>
               (id' emp \<notin> set (rootNodes s) \<and> (\<exists>!p. (p, id' emp) \<in> childRel s)))) \<and>
           (\<exists>walkFuel ns. forestIds s walkFuel = Some ns \<and> distinct ns \<and>
              set ns \<subseteq> id' ` set (filteredEmployees emps sel))"
proof -
  let ?fe = "filteredEmployees emps sel"
  from buildOrgChart_returns [OF assms] obtain fuel s
    where build: "buildOrgChart lc fuel emps sel = Some s" by blast
  note shape = buildOrgChart_shape [OF assms build]
  have same: "sameNodes (placeAll ?fe) s" by (rule buildOrgChart_sameNodes [OF build])
  from forestIds_returns [OF shape(1-4)] obtain walkFuel ns
    where walk: "forestIds s walkFuel = Some ns" "distinct ns" "set ns = {y. inForest s y}"
    by blast
  have sub: "set ns \<subseteq> id' ` set ?fe"
    using walk(3) inForest_dom [OF shape(1)] shape(6) by auto
  have roots: "distinct (rootNodes s)"
    using shape(4) unfolding distinctArrays_def validRef_def getArray_def
    by (metis ArrayRef.simps(4))
  have node: "map_option Employee.truncate (employeeMap s (id' emp)) = Some emp \<and>
      distinct (getArray (ChildrenOf (id' emp)) s) \<and>
      ((id' emp \<in> set (rootNodes s) \<and> (\<forall>p. (p, id' emp) \<notin> childRel s)) \<or>
       (id' emp \<notin> set (rootNodes s) \<and> (\<exists>!p. (p, id' emp) \<in> childRel s)))"
    if emp: "emp \<in> set ?fe" for emp
  proof -
    have "map_option Employee.truncate (employeeMap s (id' emp)) =
        map_option Employee.truncate (employeeMap (placeAll ?fe) (id' emp))"
      using same unfolding sameNodes_def by simp
    also have "\<dots> = Some emp"
      using makeEmployeeMap_distinct [OF assms emp]
      by (simp add: placeAll_map truncate_newNode Employee.truncate_def newNode_def
          Employee.extend_def)
    finally have attrs: "map_option Employee.truncate (employeeMap s (id' emp)) = Some emp" .
    have "validRef (ChildrenOf (id' emp)) s" using emp shape(6) by (simp add: validRef_def)
    with shape(4) have dist: "distinct (getArray (ChildrenOf (id' emp)) s)"
      unfolding distinctArrays_def by blast
    have place: "(id' emp \<in> set (rootNodes s) \<and> (\<forall>p. (p, id' emp) \<notin> childRel s)) \<or>
       (id' emp \<notin> set (rootNodes s) \<and> (\<exists>!p. (p, id' emp) \<in> childRel s))"
    proof (cases "id' emp \<in> set (rootNodes s)")
      case True
      with shape(2) show ?thesis unfolding singleParent_def by blast
    next
      case False
      with build_attached [OF build, of "id' emp"] emp
      obtain p where "(p, id' emp) \<in> childRel s" by blast
      with shape(2) have "\<exists>!p. (p, id' emp) \<in> childRel s"
        unfolding singleParent_def by blast
      with False show ?thesis by blast
    qed
    from attrs dist place show ?thesis by blast
  qed
  from build shape(6) roots node walk(1,2) sub show ?thesis by blast
qed

theorem every_node_attached_once_witness:
  "distinct (map id' (filteredEmployees cyclicStaff ''all'')) \<and>
   (\<exists>fuel s.
      buildOrgChart codeUnitCompare fuel cyclicStaff ''all'' = Some s \<and>
      dom (employeeMap s) = id' ` set (filteredEmployees cyclicStaff ''all'') \<and>
      distinct (rootNodes s) \<and>
      (\<exists>walkFuel ns. forestIds s walkFuel = Some ns \<and> distinct ns \<and>
         set ns \<subseteq> id' ` set (filteredEmployees cyclicStaff ''all''))) \<and>
   map_option (getArray (ChildrenOf ''x''))
     (buildOrgChart codeUnitCompare 1 cyclicStaff ''all'') = Some [''y''] \<and>
   map_option (getArray (ChildrenOf ''y''))
     (buildOrgChart codeUnitCompare 1 cyclicStaff ''all'') = Some [''x'']"
proof -
  have d: "distinct (map id' (filteredEmployees cyclicStaff ''all''))"
    by (simp add: cyclicStaff_def filteredEmployees_def)
  have e: "map_option (getArray (ChildrenOf ''x''))
     (buildOrgChart codeUnitCompare 1 cyclicStaff ''all'') = Some [''y'']"
    "map_option (getArray (ChildrenOf ''y''))
     (buildOrgChart codeUnitCompare 1 cyclicStaff ''all'') = Some [''x'']"
    by (simp_all add: build_eval cyclicStaff_def)
  from every_node_attached_once [OF d, of codeUnitCompare] d e show ?thesis by blast
qed

section \<open>Duplicate ids\<close>

text \<open>
  C4 (as amended). The builder does not check the ids. For any filtered list the
  lookup keeps, under each id, one node made from the last record with that id, so
  earlier records with the same id are dropped; the node found under a record's id is
  attached once for every record of the list, to the top-level list or to a
  \<open>children\<close> array; and whenever the build returns, its forest holds these nodes.
\<close>

theorem duplicate_ids_are_merged:
  "makeEmployeeMap (filteredEmployees emps sel) k =
     map_option newNode (find (\<lambda>emp. id' emp = k) (rev (filteredEmployees emps sel))) \<and>
   length (rootNodes (placeAll (filteredEmployees emps sel))) +
     sum_list (map (\<lambda>k. length (getArray (ChildrenOf k) (placeAll (filteredEmployees emps sel))))
       (remdups (map id' (filteredEmployees emps sel)))) =
     length (filteredEmployees emps sel) \<and>
   (\<forall>fuel s. buildOrgChart lc fuel emps sel = Some s \<longrightarrow>
      sameNodes (placeAll (filteredEmployees emps sel)) s)"
  using makeEmployeeMap_lookup [of "filteredEmployees emps sel" k]
    placeAll_attachments [of "filteredEmployees emps sel"]
    buildOrgChart_sameNodes [of lc _ emps sel]
  by blast

theorem duplicate_ids_are_merged_witness:
  "map_option name (makeEmployeeMap (filteredEmployees duplicateIds ''all'') ''a'') =
     Some ''Yuri'' \<and>
   length (rootNodes (placeAll (filteredEmployees duplicateIds ''all''))) +
     sum_list (map (\<lambda>k. length (getArray (ChildrenOf k)
         (placeAll (filteredEmployees duplicateIds ''all''))))
       (remdups (map id' (filteredEmployees duplicateIds ''all'')))) = 2 \<and>
   buildOrgChart codeUnitCompare 1 duplicateIds ''all'' \<noteq> None \<and>
   sameNodes (placeAll (filteredEmployees duplicateIds ''all''))
     (the (buildOrgChart codeUnitCompare 1 duplicateIds ''all''))"
proof -
  let ?fe = "filteredEmployees duplicateIds ''all''"
  have n: "buildOrgChart codeUnitCompare 1 duplicateIds ''all'' \<noteq> None"
    by (simp add: build_eval duplicateIds_def)
  then obtain s where s: "buildOrgChart codeUnitCompare 1 duplicateIds ''all'' = Some s"
    by blast
  have l: "length ?fe = 2"
    "map_option name (map_option newNode (find (\<lambda>emp. id' emp = ''a'') (rev ?fe))) =
       Some ''Yuri''"
    by (simp_all add: duplicateIds_def filteredEmployees_def newNode_def Employee.extend_def)
  from duplicate_ids_are_merged [of duplicateIds "''all''" "''a''" codeUnitCompare]
    s n l show ?thesis by (simp only: option.sel) blast
qed

text \<open>
  C4 (as stated) fails on two records with the same id: the build returns a forest
  instead of an error, the node under the id holds the second record, and this one
  node stands twice in the top-level list.
\<close>

theorem duplicate_ids_raise_no_error:
  "\<not> distinct (map id' (filteredEmployees duplicateIds ''all'')) \<and>
   map_option rootNodes (buildOrgChart codeUnitCompare 1 duplicateIds ''all'') =
     Some [''a'', ''a''] \<and>
   map_option name (makeEmployeeMap duplicateIds ''a'') = Some ''Yuri''"
  by (simp add: build_eval duplicateIds_def)

section \<open>Sibling order\<close>

text \<open>
  C5. Role priorities are admin 0, manager 1, employee 2. For a filtered list with
  unique ids and a consistent name comparison, the build returns, and in its result
  the top-level list and the \<open>children\<close> of every node of the forest, at any depth,
  are in order: of two elements the earlier has the smaller role priority, or the
  same priority and a name that does not compare greater.
\<close>

theorem forest_sorted_at_every_depth:
  assumes "distinct (map id' (filteredEmployees emps sel))" and "consistentCompare lc"
  shows "roleOrder admin = 0 \<and> roleOrder manager = 1 \<and> roleOrder employee = 2 \<and>
         (\<exists>fuel s.
            buildOrgChart lc fuel emps sel = Some s \<and>
            sorted_wrt (inOrder lc s) (rootNodes s) \<and>
            (\<forall>x. inForest s x \<longrightarrow> sorted_wrt (inOrder lc s) (children (deref s x))))"
proof -
  let ?s0 = "placeAll (filteredEmployees emps sel)"
  from buildOrgChart_returns [OF assms(1)] obtain fuel s
    where build: "buildOrgChart lc fuel emps sel = Some s" by blast
  have same: "sameNodes ?s0 s" by (rule buildOrgChart_sameNodes [OF build])
  have sorts: "sortedArray lc s RootNodes"
    "\<And>c y. c \<in> set (getArray RootNodes ?s0) \<Longrightarrow> (c, y) \<in> (childRel ?s0)\<^sup>* \<Longrightarrow>
       sortedArray lc s (ChildrenOf y)"
    using sortNodes_sorts [OF build [unfolded buildOrgChart_def] assms(2) placeAll_closedRefs
        placeAll_singleParent [OF assms(1)]]
    by (simp_all add: validRef_def forestArray_def)
  have "sorted_wrt (inOrder lc s) (children (deref s x))" if "inForest s x" for x
  proof -
    from that have "inForest ?s0 x" by (simp add: sameNodes_inForest [OF same])
    then obtain r where "r \<in> set (getArray RootNodes ?s0)" "(r, x) \<in> (childRel ?s0)\<^sup>*"
      by (auto simp: inForest_def getArray_def)
    from sorts(2) [OF this] show ?thesis by (simp add: sortedArray_def getArray_def)
  qed
  moreover from sorts(1) have "sorted_wrt (inOrder lc s) (rootNodes s)"
    by (simp add: sortedArray_def getArray_def)
  ultimately show ?thesis using build by (auto simp: roleOrder_def)
qed

theorem forest_sorted_at_every_depth_witness:
  "distinct (map id' (filteredEmployees sampleStaff ''all'')) \<and>
   consistentCompare codeUnitCompare \<and>
   (\<exists>fuel s.
      buildOrgChart codeUnitCompare fuel sampleStaff ''all'' = Some s \<and>
      sorted_wrt (inOrder codeUnitCompare s) (rootNodes s) \<and>
      (\<forall>x. inForest s x \<longrightarrow> sorted_wrt (inOrder codeUnitCompare s) (children (deref s x)))) \<and>
   map_option (getArray (ChildrenOf ''a''))
     (buildOrgChart codeUnitCompare 3 sampleStaff ''all'') = Some [''b'', ''d'']"
proof -
  have d: "distinct (map id' (filteredEmployees sampleStaff ''all''))"
    by (simp add: sampleStaff_def filteredEmployees_def)
  have e: "map_option (getArray (ChildrenOf ''a''))
     (buildOrgChart codeUnitCompare 3 sampleStaff ''all'') = Some [''b'', ''d'']"
    by (simp add: build_eval sampleStaff_def)
  from forest_sorted_at_every_depth [OF d consistent_codeUnitCompare] d e
    consistent_codeUnitCompare
  show ?thesis by blast
qed

section \<open>Expansion state\<close>

text \<open>
  C8. The set of expanded ids is held apart from the forest and is keyed by employee
  id. Loading a snapshot and selecting a department leave it as it is; a rebuild
  that returns leaves every id expanded exactly when it was expanded before; and
  with unique ids in the filtered list the rebuild returns.
\<close>

theorem rebuild_keeps_expansion:
  "expandedNodes (fetchEmployees snapshot st) = expandedNodes st \<and>
   expandedNodes (setSelectedDepartment d st) = expandedNodes st \<and>
   (\<forall>fuel st' nodeId. rebuild lc fuel st = Some st' \<longrightarrow>
      (nodeId \<in> expandedNodes st') = (nodeId \<in> expandedNodes st)) \<and>
   (distinct (map id' (filteredEmployees (employees st) (selectedDepartment st))) \<longrightarrow>
      (\<exists>fuel st'. rebuild lc fuel st = Some st'))"
proof -
  have "expandedNodes st' = expandedNodes st" if "rebuild lc fuel st = Some st'" for fuel st'
    using that by (auto simp: rebuild_def split: if_splits)
  moreover have "\<exists>fuel st'. rebuild lc fuel st = Some st'"
    if "distinct (map id' (filteredEmployees (employees st) (selectedDepartment st)))"
  proof -
    from buildOrgChart_returns [OF that] obtain fuel s
      where "buildOrgChart lc fuel (employees st) (selectedDepartment st) = Some s" by blast
    then have "\<exists>st'. rebuild lc fuel st = Some st'" by (simp add: rebuild_def)
    then show ?thesis by blast
  qed
  ultimately show ?thesis
    by (simp add: fetchEmployees_def setSelectedDepartment_def)
qed

theorem rebuild_keeps_expansion_witness:
  "distinct (map id' (filteredEmployees sampleStaff ''Eng'')) \<and>
   rebuild codeUnitCompare 2
     (setSelectedDepartment ''Eng''
       (fetchEmployees sampleStaff (toggleNode ''a'' initialState))) \<noteq> None \<and>
   ''a'' \<in> expandedNodes (the (rebuild codeUnitCompare 2
     (setSelectedDepartment ''Eng''
       (fetchEmployees sampleStaff (toggleNode ''a'' initialState))))) \<and>
   ''b'' \<notin> expandedNodes (the (rebuild codeUnitCompare 2
     (setSelectedDepartment ''Eng''
       (fetchEmployees sampleStaff (toggleNode ''a'' initialState)))))"
proof -
  let ?st = "setSelectedDepartment ''Eng''
       (fetchEmployees sampleStaff (toggleNode ''a'' initialState))"
  have d: "distinct (map id' (filteredEmployees sampleStaff ''Eng''))"
    by (simp add: sampleStaff_def filteredEmployees_def)
  have n: "rebuild codeUnitCompare 2 ?st \<noteq> None"
    by (simp add: state_eval build_eval sampleStaff_def)
  then obtain st' where st': "rebuild codeUnitCompare 2 ?st = Some st'" by blast
  have x: "expandedNodes ?st = {''a''}"
    by (simp add: state_eval)
  from rebuild_keeps_expansion [of sampleStaff ?st "''Eng''" codeUnitCompare] st'
  have "\<And>nodeId. (nodeId \<in> expandedNodes st') = (nodeId \<in> expandedNodes ?st)" by blast
  with x have "''a'' \<in> expandedNodes st'" "''b'' \<notin> expandedNodes st'" by simp_all
  with d n st' show ?thesis by simp
qed

section \<open>Roots and children\<close>

text \<open>
  C6. A record of the filtered list is put in the top-level list exactly when its
  \<open>managerId\<close> is unset (absent or the empty string, which the employee form stores
  for "no manager") or is not the id of a record of the filtered list; otherwise it is
  appended to the \<open>children\<close> of the node of that manager. So in every forest that a
  build returns, the top-level list holds the ids of the records of the first kind
  and the \<open>children\<close> of a manager hold the ids of the records that name it, one entry
  per record. For a filtered list with unique ids the build returns, a record is in
  the top-level list exactly in the first case, and in the other case its id is in
  the \<open>children\<close> of its manager and in \<open>childNodes\<close>. In particular, under a
  department filter, an employee of the selected department whose manager belongs
  only to other departments is in the top-level list.
\<close>

theorem root_iff_manager_unresolved:
  "(\<forall>fuel s. buildOrgChart lc fuel emps sel = Some s \<longrightarrow>
      mset (rootNodes s) =
        mset (map id' (filter (\<lambda>emp. managerId emp = None \<or> managerId emp = Some [] \<or>
                 the (managerId emp) \<notin> id' ` set (filteredEmployees emps sel))
               (filteredEmployees emps sel))) \<and>
      (\<forall>m. m \<noteq> [] \<and> m \<in> id' ` set (filteredEmployees emps sel) \<longrightarrow>
         mset (getArray (ChildrenOf m) s) =
           mset (map id' (filter (\<lambda>emp. managerId emp = Some m)
                  (filteredEmployees emps sel))))) \<and>
   (distinct (map id' (filteredEmployees emps sel)) \<longrightarrow>
     (\<exists>fuel s.
        buildOrgChart lc fuel emps sel = Some s \<and>
        (\<forall>emp\<in>set (filteredEmployees emps sel).
           (id' emp \<in> set (rootNodes s)) =
             (managerId emp = None \<or> managerId emp = Some [] \<or>
              the (managerId emp) \<notin> id' ` set (filteredEmployees emps sel)) \<and>
           (\<forall>m. managerId emp = Some m \<and> m \<noteq> [] \<and>
                m \<in> id' ` set (filteredEmployees emps sel) \<longrightarrow>
              id' emp \<in> set (getArray (ChildrenOf m) s) \<and> id' emp \<in> childNodes s)) \<and>
        (\<forall>emp\<in>set emps. \<forall>m.
           sel \<noteq> ''all'' \<and> department emp = sel \<and> managerId emp = Some m \<and>
           (\<forall>other\<in>set emps. id' other = m \<longrightarrow> department other \<noteq> sel) \<longrightarrow>
           id' emp \<in> set (rootNodes s))))"
proof -
  let ?fe = "filteredEmployees emps sel"
  let ?res = "resolvedManager (makeEmployeeMap ?fe)"
  have none: "(?res emp = None) =
      (managerId emp = None \<or> managerId emp = Some [] \<or> the (managerId emp) \<notin> id' ` set ?fe)"
    for emp
    by (simp add: resolvedManager_None dom_makeEmployeeMap)
  have general: "mset (rootNodes s) =
        mset (map id' (filter (\<lambda>emp. managerId emp = None \<or> managerId emp = Some [] \<or>
                 the (managerId emp) \<notin> id' ` set ?fe) ?fe)) \<and>
      (\<forall>m. m \<noteq> [] \<and> m \<in> id' ` set ?fe \<longrightarrow>
         mset (getArray (ChildrenOf m) s) =
           mset (map id' (filter (\<lambda>emp. managerId emp = Some m) ?fe)))"
    if build: "buildOrgChart lc fuel emps sel = Some s" for fuel s
  proof -
    have same: "sameNodes (placeAll ?fe) s" by (rule buildOrgChart_sameNodes [OF build])
    have "mset (rootNodes s) = mset (rootNodes (placeAll ?fe))"
      using sameNodes_array [OF same, of RootNodes] by (simp add: getArray_def)
    then have r: "mset (rootNodes s) =
        mset (map id' (filter (\<lambda>emp. managerId emp = None \<or> managerId emp = Some [] \<or>
                 the (managerId emp) \<notin> id' ` set ?fe) ?fe))"
      by (simp add: placeAll_roots none)
    have "mset (getArray (ChildrenOf m) s) =
        mset (map id' (filter (\<lambda>emp. managerId emp = Some m) ?fe))"
      if m: "m \<noteq> [] \<and> m \<in> id' ` set ?fe" for m
    proof -
      have "(?res emp = Some m) = (managerId emp = Some m)" for emp
        using m by (auto simp: resolvedManager_Some dom_makeEmployeeMap)
      with m show ?thesis
        using sameNodes_array [OF same, of "ChildrenOf m"] by (simp add: placeAll_children)
    qed
    with r show ?thesis by blast
  qed
  have unique: "\<exists>fuel s.
        buildOrgChart lc fuel emps sel = Some s \<and>
        (\<forall>emp\<in>set ?fe.
           (id' emp \<in> set (rootNodes s)) =
             (managerId emp = None \<or> managerId emp = Some [] \<or>
              the (managerId emp) \<notin> id' ` set ?fe) \<and>
           (\<forall>m. managerId emp = Some m \<and> m \<noteq> [] \<and> m \<in> id' ` set ?fe \<longrightarrow>
              id' emp \<in> set (getArray (ChildrenOf m) s) \<and> id' emp \<in> childNodes s)) \<and>
        (\<forall>emp\<in>set emps. \<forall>m.
           sel \<noteq> ''all'' \<and> department emp = sel \<and> managerId emp = Some m \<and>
           (\<forall>other\<in>set emps. id' other = m \<longrightarrow> department other \<noteq> sel) \<longrightarrow>
           id' emp \<in> set (rootNodes s))"
    if dist: "distinct (map id' ?fe)"
  proof -
    from buildOrgChart_returns [OF dist] obtain fuel s
      where build: "buildOrgChart lc fuel emps sel = Some s" by blast
    have same: "sameNodes (placeAll ?fe) s" by (rule buildOrgChart_sameNodes [OF build])
    have root: "(id' emp \<in> set (rootNodes s)) =
        (managerId emp = None \<or> managerId emp = Some [] \<or>
         the (managerId emp) \<notin> id' ` set ?fe)"
      if emp: "emp \<in> set ?fe" for emp
    proof -
      have "id' emp \<in> set (rootNodes s) \<longleftrightarrow> ?res emp = None"
      proof
        assume "id' emp \<in> set (rootNodes s)"
        then obtain e2 where e2: "e2 \<in> set ?fe" "?res e2 = None" "id' e2 = id' emp"
          using build_roots [OF build] by auto
        with id_inj [OF dist e2(1) emp] show "?res emp = None" by simp
      next
        assume "?res emp = None"
        with emp show "id' emp \<in> set (rootNodes s)" using build_roots [OF build] by blast
      qed
      then show ?thesis by (simp only: none)
    qed
    have child: "id' emp \<in> set (getArray (ChildrenOf m) s) \<and> id' emp \<in> childNodes s"
      if emp: "emp \<in> set ?fe"
        and m: "managerId emp = Some m \<and> m \<noteq> [] \<and> m \<in> id' ` set ?fe"
      for emp m
    proof -
      from m have res: "?res emp = Some m"
        by (simp add: resolvedManager_Some dom_makeEmployeeMap)
      with emp m have "id' emp \<in> set (getArray (ChildrenOf m) s)"
        using build_children [OF build, of m] by blast
      moreover have "childNodes s = childNodes (placeAll ?fe)"
        using same unfolding sameNodes_def by simp
      then have "id' emp \<in> childNodes s"
        using fold_placeEmployee [of ?fe
            "\<lparr>employeeMap = makeEmployeeMap ?fe, rootNodes = [], childNodes = {}\<rparr>"] emp res
        by (auto simp: placeAll_def dom_makeEmployeeMap)
      ultimately show ?thesis by simp
    qed
    have dept: "id' emp \<in> set (rootNodes s)"
      if emp: "emp \<in> set emps"
        and h: "sel \<noteq> ''all'' \<and> department emp = sel \<and> managerId emp = Some m \<and>
          (\<forall>other\<in>set emps. id' other = m \<longrightarrow> department other \<noteq> sel)"
      for emp m
    proof -
      from emp h have fe: "emp \<in> set ?fe" by (simp add: filteredEmployees_def)
      from h have "m \<notin> id' ` set ?fe" by (auto simp: filteredEmployees_def)
      with h root [OF fe] show ?thesis by simp
    qed
    from build root child dept show ?thesis by blast
  qed
  from general unique show ?thesis by (intro conjI allI impI) blast+
qed

theorem root_iff_manager_unresolved_witness:
  "distinct (map id' (filteredEmployees sampleStaff ''Sales'')) \<and>
   (\<exists>fuel s. buildOrgChart codeUnitCompare fuel sampleStaff ''Sales'' = Some s) \<and>
   map id' (filteredEmployees sampleStaff ''Sales'') = [''c''] \<and>
   map_option rootNodes (buildOrgChart codeUnitCompare 1 sampleStaff ''Sales'') = Some [''c''] \<and>
   map_option rootNodes (buildOrgChart codeUnitCompare 3 sampleStaff ''all'') = Some [''a''] \<and>
   map_option (getArray (ChildrenOf ''b''))
     (buildOrgChart codeUnitCompare 3 sampleStaff ''all'') = Some [''c'']"
proof -
  have d: "distinct (map id' (filteredEmployees sampleStaff ''Sales''))"
    by (simp add: sampleStaff_def filteredEmployees_def)
  have e: "map id' (filteredEmployees sampleStaff ''Sales'') = [''c'']"
    "map_option rootNodes (buildOrgChart codeUnitCompare 1 sampleStaff ''Sales'') = Some [''c'']"
    "map_option rootNodes (buildOrgChart codeUnitCompare 3 sampleStaff ''all'') = Some [''a'']"
    "map_option (getArray (ChildrenOf ''b''))
      (buildOrgChart codeUnitCompare 3 sampleStaff ''all'') = Some [''c'']"
    by (simp_all add: build_eval sampleStaff_def)
  from root_iff_manager_unresolved [of codeUnitCompare sampleStaff "''Sales''",
      THEN conjunct2, THEN mp, OF d]
  obtain fuel s where "buildOrgChart codeUnitCompare fuel sampleStaff ''Sales'' = Some s"
    by (elim exE conjE)
  then have "\<exists>fuel s. buildOrgChart codeUnitCompare fuel sampleStaff ''Sales'' = Some s"
    by (intro exI)
  with d e show ?thesis by (intro conjI)
qed


end
